theory Spec2Isabelle
  imports Main "HOL-Library.Word" "HOL-Library.Monad_Syntax" "HOL-Library.Multiset"
begin

unbundle bit_operations_syntax

section \<open>Arrays and machine integers\<close>

text \<open>
  The device arrays of the halo-discovery kernel are lists. An access outside an array is
  undefined behaviour in C++ and CUDA; it is the value \<open>None\<close> here, and it makes the whole
  computation \<open>None\<close>.
\<close>

type_synonym TreeNodeIndex = int

definition rd :: "'a list \<Rightarrow> int \<Rightarrow> 'a option" where
  "rd xs i = (if 0 \<le> i \<and> i < int (length xs) then Some (xs ! nat i) else None)"

definition wr :: "'a list \<Rightarrow> int \<Rightarrow> 'a \<Rightarrow> 'a list option" where
  "wr xs i v = (if 0 \<le> i \<and> i < int (length xs) then Some (xs[nat i := v]) else None)"

text \<open>Conversion to a 32-bit \<open>unsigned\<close>, as C++ does it: modulo \<open>2 ^ 32\<close>.\<close>

definition u32 :: "int \<Rightarrow> int" where
  "u32 x = x mod 2 ^ 32"

text \<open>A callback run on each element of a list in turn, threading the state.\<close>

fun forEach :: "('s \<Rightarrow> 'a \<Rightarrow> 's option) \<Rightarrow> 'a list \<Rightarrow> 's \<Rightarrow> 's option" where
  "forEach f [] s = Some s"
| "forEach f (x # xs) s = (case f s x of None \<Rightarrow> None | Some s' \<Rightarrow> forEach f xs s')"

section \<open>The helpers of cstone that the kernel calls\<close>

text \<open>
  \<open>findHalosKernel\<close> calls functions of \<open>cstone/traversal/collisions.hpp\<close> and of the key
  codec. They are parameters of the model, collected in a record. \<open>findCollisions\<close> gets
  the callback \<open>markCollisions\<close> and const arrays, so all it can do to the flag array is to
  call the callback: its model returns the node indices it calls the callback with, in
  call order, or \<open>None\<close> when the traversal itself is undefined.
\<close>

record ('k, 'r, 'b, 'ib) cstone =
  decodePlaceholderBit :: "'k \<Rightarrow> 'k"
  decodePrefixLength :: "'k \<Rightarrow> nat"
  nodeRange :: "nat \<Rightarrow> 'k"
  makeHaloBox :: "'k \<Rightarrow> 'k \<Rightarrow> 'r \<Rightarrow> 'b \<Rightarrow> 'ib"
  containedIn :: "'k \<Rightarrow> 'k \<Rightarrow> 'ib \<Rightarrow> bool"
  findCollisions :: "'k list \<Rightarrow> TreeNodeIndex list \<Rightarrow> 'ib \<Rightarrow> 'k \<Rightarrow> 'k \<Rightarrow> TreeNodeIndex list option"
  iceil :: "int \<Rightarrow> nat \<Rightarrow> nat"

section \<open>The GPU driver: findHalosKernel and findHalosGpu\<close>

text \<open>The lambda \<open>markCollisions\<close>: \<open>collisionFlags[toLeafOrder[i]] = 1\<close>.\<close>

definition markCollisions :: "TreeNodeIndex list \<Rightarrow> int list \<Rightarrow> TreeNodeIndex \<Rightarrow> int list option" where
  "markCollisions toLeafOrder collisionFlags i =
     do { l \<leftarrow> rd toLeafOrder i; wr collisionFlags l 1 }"

text \<open>
  \<open>unsigned leafIdx = blockIdx.x * blockDim.x + threadIdx.x + firstNode\<close>, in unsigned
  32-bit arithmetic.
\<close>

definition leafIdxOf :: "nat \<Rightarrow> nat \<Rightarrow> nat \<Rightarrow> TreeNodeIndex \<Rightarrow> int" where
  "leafIdxOf blockIdx blockDim threadIdx firstNode =
     u32 (int blockIdx * int blockDim + int threadIdx + firstNode)"

text \<open>
  One thread of \<open>findHalosKernel\<close>, from the flag array before it runs to the flag array
  after it. The comparison \<open>leafIdx < lastNode\<close> is unsigned.
\<close>

definition findHalosKernel ::
  "('w::len word, 'r, 'b, 'ib) cstone \<Rightarrow> 'w word list \<Rightarrow> TreeNodeIndex list \<Rightarrow>
   TreeNodeIndex list \<Rightarrow> TreeNodeIndex list \<Rightarrow> 'r list \<Rightarrow> 'b \<Rightarrow> TreeNodeIndex \<Rightarrow> TreeNodeIndex \<Rightarrow>
   nat \<Rightarrow> nat \<Rightarrow> nat \<Rightarrow> int list \<Rightarrow> int list option" where
  "findHalosKernel h nodePrefixes childOffsets toInternalOrder toLeafOrder interactionRadii box
       firstNode lastNode blockIdx blockDim threadIdx collisionFlags =
     (let leafIdx = leafIdxOf blockIdx blockDim threadIdx firstNode in
      if leafIdx < u32 lastNode then
        do {
          radius \<leftarrow> rd interactionRadii leafIdx;
          idx \<leftarrow> rd toInternalOrder leafIdx;
          prefix \<leftarrow> rd nodePrefixes idx;
          let lowerTargetKey = decodePlaceholderBit h prefix;
          let upperTargetKey = lowerTargetKey + nodeRange h (decodePrefixLength h prefix div 3);
          let haloBox = makeHaloBox h lowerTargetKey upperTargetKey radius box;
          firstIdx \<leftarrow> rd toInternalOrder firstNode;
          firstPrefix \<leftarrow> rd nodePrefixes firstIdx;
          lastIdx \<leftarrow> rd toInternalOrder (lastNode - 1);
          lastPrefix \<leftarrow> rd nodePrefixes lastIdx;
          let lowestKey = decodePlaceholderBit h firstPrefix;
          let highestKey = decodePlaceholderBit h lastPrefix
                             + nodeRange h (decodePrefixLength h lastPrefix div 3);
          if containedIn h lowestKey highestKey haloBox then Some collisionFlags
          else
            do {
              collisions \<leftarrow> findCollisions h nodePrefixes childOffsets haloBox lowestKey highestKey;
              forEach (markCollisions toLeafOrder) collisions collisionFlags
            }
        }
      else Some collisionFlags)"

text \<open>
  A kernel launch \<open><<<numBlocks, numThreads>>>\<close> runs one thread for each pair of a block
  index and a thread index. The order in which the device runs them is not fixed: it is the
  schedule, a list holding every thread of the grid once.
\<close>

definition grid :: "nat \<Rightarrow> nat \<Rightarrow> (nat \<times> nat) list" where
  "grid numBlocks numThreads = List.product [0..<numBlocks] [0..<numThreads]"

definition schedule :: "nat \<Rightarrow> nat \<Rightarrow> (nat \<times> nat) list \<Rightarrow> bool" where
  "schedule numBlocks numThreads sched \<longleftrightarrow> mset sched = mset (grid numBlocks numThreads)"

definition launch ::
  "(nat \<times> nat) list \<Rightarrow> nat \<Rightarrow> nat \<Rightarrow> (nat \<Rightarrow> nat \<Rightarrow> nat \<Rightarrow> 's \<Rightarrow> 's option) \<Rightarrow> 's \<Rightarrow> 's option" where
  "launch sched numBlocks numThreads thread s =
     (if schedule numBlocks numThreads sched
      then forEach (\<lambda>s' (blockIdx, threadIdx). thread blockIdx numThreads threadIdx s') sched s
      else None)"

text \<open>
  \<open>findHalosGpu\<close>: 128 threads per block, \<open>iceil(lastNode - firstNode, numThreads)\<close> blocks.
  The first argument is the schedule of the launch; a list that is no schedule of the grid
  is no execution of it, and gives \<open>None\<close>.
\<close>

definition findHalosGpu ::
  "(nat \<times> nat) list \<Rightarrow> ('w::len word, 'r, 'b, 'ib) cstone \<Rightarrow> 'w word list \<Rightarrow> TreeNodeIndex list \<Rightarrow>
   TreeNodeIndex list \<Rightarrow> TreeNodeIndex list \<Rightarrow> 'r list \<Rightarrow> 'b \<Rightarrow> TreeNodeIndex \<Rightarrow> TreeNodeIndex \<Rightarrow>
   int list \<Rightarrow> int list option" where
  "findHalosGpu sched h nodePrefixes childOffsets toInternalOrder toLeafOrder interactionRadii box
       firstNode lastNode collisionFlags =
     (let numThreads = 128;
          numBlocks = iceil h (lastNode - firstNode) numThreads
      in launch sched numBlocks numThreads
           (findHalosKernel h nodePrefixes childOffsets toInternalOrder toLeafOrder
              interactionRadii box firstNode lastNode)
           collisionFlags)"

section \<open>What the statements about the GPU driver are written in\<close>

text \<open>
  The local range is a range of leaf indices of type \<open>TreeNodeIndex\<close>, a 32-bit \<open>int\<close>.
\<close>

definition validRange :: "TreeNodeIndex \<Rightarrow> TreeNodeIndex \<Rightarrow> bool" where
  "validRange firstNode lastNode \<longleftrightarrow> 0 \<le> firstNode \<and> firstNode \<le> lastNode \<and> lastNode < 2 ^ 31"

text \<open>What is asked of the parameter \<open>iceil\<close>: it is the integer ceiling of \<open>n / d\<close>.\<close>

definition iceilSpec :: "('k, 'r, 'b, 'ib) cstone \<Rightarrow> int \<Rightarrow> nat \<Rightarrow> bool" where
  "iceilSpec h n d \<longleftrightarrow> n \<le> int (iceil h n d * d) \<and> int (iceil h n d * d) < n + int d"

text \<open>Leaf \<open>i\<close> can be read: its radius, its node index and the prefix of that node.\<close>

definition readable :: "'k list \<Rightarrow> TreeNodeIndex list \<Rightarrow> 'r list \<Rightarrow> TreeNodeIndex \<Rightarrow> bool" where
  "readable nodePrefixes toInternalOrder interactionRadii i \<longleftrightarrow>
     0 \<le> i \<and> i < int (length interactionRadii) \<and> i < int (length toInternalOrder) \<and>
     0 \<le> toInternalOrder ! nat i \<and> toInternalOrder ! nat i < int (length nodePrefixes)"

definition readableNode :: "'k list \<Rightarrow> TreeNodeIndex list \<Rightarrow> TreeNodeIndex \<Rightarrow> bool" where
  "readableNode nodePrefixes toInternalOrder i \<longleftrightarrow>
     0 \<le> i \<and> i < int (length toInternalOrder) \<and>
     0 \<le> toInternalOrder ! nat i \<and> toInternalOrder ! nat i < int (length nodePrefixes)"

definition readableRange ::
  "'k list \<Rightarrow> TreeNodeIndex list \<Rightarrow> 'r list \<Rightarrow> TreeNodeIndex \<Rightarrow> TreeNodeIndex \<Rightarrow> bool" where
  "readableRange nodePrefixes toInternalOrder interactionRadii firstNode lastNode \<longleftrightarrow>
     (\<forall>i \<in> set [firstNode..lastNode - 1]. readable nodePrefixes toInternalOrder interactionRadii i)"

text \<open>The key range of a node prefix: where it starts and where it ends.\<close>

definition keyStart :: "('w::len word, 'r, 'b, 'ib) cstone \<Rightarrow> 'w word \<Rightarrow> 'w word" where
  "keyStart h prefix = decodePlaceholderBit h prefix"

definition keyEnd :: "('w::len word, 'r, 'b, 'ib) cstone \<Rightarrow> 'w word \<Rightarrow> 'w word" where
  "keyEnd h prefix = decodePlaceholderBit h prefix + nodeRange h (decodePrefixLength h prefix div 3)"

text \<open>
  The halo box of leaf \<open>i\<close>: the key range of the leaf's own node, expanded by the leaf's
  own radius. The key span of the local range: from the start of leaf \<open>firstNode\<close> to the
  end of leaf \<open>lastNode - 1\<close>.
\<close>

definition haloBoxOf ::
  "('w::len word, 'r, 'b, 'ib) cstone \<Rightarrow> 'w word list \<Rightarrow> TreeNodeIndex list \<Rightarrow> 'r list \<Rightarrow> 'b \<Rightarrow>
   TreeNodeIndex \<Rightarrow> 'ib" where
  "haloBoxOf h nodePrefixes toInternalOrder interactionRadii box i =
     makeHaloBox h (keyStart h (nodePrefixes ! nat (toInternalOrder ! nat i)))
       (keyEnd h (nodePrefixes ! nat (toInternalOrder ! nat i))) (interactionRadii ! nat i) box"

definition lowestKeyOf ::
  "('w::len word, 'r, 'b, 'ib) cstone \<Rightarrow> 'w word list \<Rightarrow> TreeNodeIndex list \<Rightarrow> TreeNodeIndex \<Rightarrow> 'w word" where
  "lowestKeyOf h nodePrefixes toInternalOrder firstNode =
     keyStart h (nodePrefixes ! nat (toInternalOrder ! nat firstNode))"

definition highestKeyOf ::
  "('w::len word, 'r, 'b, 'ib) cstone \<Rightarrow> 'w word list \<Rightarrow> TreeNodeIndex list \<Rightarrow> TreeNodeIndex \<Rightarrow> 'w word" where
  "highestKeyOf h nodePrefixes toInternalOrder lastNode =
     keyEnd h (nodePrefixes ! nat (toInternalOrder ! nat (lastNode - 1)))"

text \<open>
  The node indices that the thread of leaf \<open>leafIdx\<close> passes to \<open>markCollisions\<close>, in order:
  none on the fast path. \<open>None\<close> when a read of the thread is out of range.
\<close>

definition threadCollisions ::
  "('w::len word, 'r, 'b, 'ib) cstone \<Rightarrow> 'w word list \<Rightarrow> TreeNodeIndex list \<Rightarrow>
   TreeNodeIndex list \<Rightarrow> 'r list \<Rightarrow> 'b \<Rightarrow> TreeNodeIndex \<Rightarrow> TreeNodeIndex \<Rightarrow>
   int \<Rightarrow> TreeNodeIndex list option" where
  "threadCollisions h nodePrefixes childOffsets toInternalOrder interactionRadii box
       firstNode lastNode leafIdx =
     do {
       radius \<leftarrow> rd interactionRadii leafIdx;
       idx \<leftarrow> rd toInternalOrder leafIdx;
       prefix \<leftarrow> rd nodePrefixes idx;
       firstIdx \<leftarrow> rd toInternalOrder firstNode;
       firstPrefix \<leftarrow> rd nodePrefixes firstIdx;
       lastIdx \<leftarrow> rd toInternalOrder (lastNode - 1);
       lastPrefix \<leftarrow> rd nodePrefixes lastIdx;
       let haloBox = makeHaloBox h (keyStart h prefix) (keyEnd h prefix) radius box;
       if containedIn h (keyStart h firstPrefix) (keyEnd h lastPrefix) haloBox then Some []
       else findCollisions h nodePrefixes childOffsets haloBox (keyStart h firstPrefix)
              (keyEnd h lastPrefix)
     }"

definition threadProg ::
  "('w::len word, 'r, 'b, 'ib) cstone \<Rightarrow> 'w word list \<Rightarrow> TreeNodeIndex list \<Rightarrow>
   TreeNodeIndex list \<Rightarrow> 'r list \<Rightarrow> 'b \<Rightarrow> TreeNodeIndex \<Rightarrow> TreeNodeIndex \<Rightarrow>
   nat \<times> nat \<Rightarrow> TreeNodeIndex list option" where
  "threadProg h np co tio radii box fn ln bt =
     (if leafIdxOf (fst bt) 128 (snd bt) fn < u32 ln
      then threadCollisions h np co tio radii box fn ln (leafIdxOf (fst bt) 128 (snd bt) fn)
      else Some [])"

text \<open>Running a list of marks, and what it does to the flag array.\<close>

definition runMarks :: "TreeNodeIndex list \<Rightarrow> int list \<Rightarrow> TreeNodeIndex list option \<Rightarrow> int list option" where
  "runMarks toLeafOrder flags p =
     (case p of None \<Rightarrow> None | Some ms \<Rightarrow> forEach (markCollisions toLeafOrder) ms flags)"

definition targets :: "TreeNodeIndex list \<Rightarrow> TreeNodeIndex list \<Rightarrow> int set" where
  "targets toLeafOrder ms = {l. \<exists>i \<in> set ms. rd toLeafOrder i = Some l}"

definition marksOk :: "TreeNodeIndex list \<Rightarrow> nat \<Rightarrow> TreeNodeIndex list \<Rightarrow> bool" where
  "marksOk toLeafOrder n ms \<longleftrightarrow>
     (\<forall>i \<in> set ms. \<exists>l. rd toLeafOrder i = Some l \<and> 0 \<le> l \<and> l < int n)"

definition flagAll :: "int list \<Rightarrow> int set \<Rightarrow> int list" where
  "flagAll flags T = map (\<lambda>j. if int j \<in> T then 1 else flags ! j) [0..<length flags]"

definition progOk :: "TreeNodeIndex list \<Rightarrow> nat \<Rightarrow> TreeNodeIndex list option \<Rightarrow> bool" where
  "progOk toLeafOrder n p \<longleftrightarrow> (case p of None \<Rightarrow> False | Some ms \<Rightarrow> marksOk toLeafOrder n ms)"

definition progTargets :: "TreeNodeIndex list \<Rightarrow> TreeNodeIndex list option \<Rightarrow> int set" where
  "progTargets toLeafOrder p = (case p of None \<Rightarrow> {} | Some ms \<Rightarrow> targets toLeafOrder ms)"

section \<open>The traversal and the CPU driver, from the specification\<close>

text \<open>
  Modelled from the spec: \<open>findCollisions\<close> (\<open>cstone/traversal/collisions.hpp\<close>) is not under
  src/. Section 4.5, step 4: "traverse the linked tree from the root, descending into any
  node whose box overlaps haloBox and whose key range lies outside [lowestKey, highestKey);
  every overlapping leaf reached is flagged." The root's key range is the whole key space,
  so a node lies outside the span when its key range is not contained in it. The overlap test
  of a node's box with the halo box belongs to the absent geometry: it is the parameter
  \<open>overlaps\<close>, given the key range of the node. Node 0 is the root; \<open>childOffsets[n]\<close> is the
  first of the eight children of \<open>n\<close>, and 0 for a leaf (section 3).
\<close>

definition collides ::
  "('w::len word, 'r, 'b, 'ib) cstone \<Rightarrow> ('w word \<Rightarrow> 'w word \<Rightarrow> 'ib \<Rightarrow> bool) \<Rightarrow> 'w word list \<Rightarrow>
   'ib \<Rightarrow> 'w word \<Rightarrow> 'w word \<Rightarrow> TreeNodeIndex \<Rightarrow> bool option" where
  "collides h overlaps nodePrefixes haloBox lowestKey highestKey n =
     do {
       prefix \<leftarrow> rd nodePrefixes n;
       let nodeKey = decodePlaceholderBit h prefix;
       let nodeEnd = nodeKey + nodeRange h (decodePrefixLength h prefix div 3);
       Some (\<not> (lowestKey \<le> nodeKey \<and> nodeEnd \<le> highestKey) \<and> overlaps nodeKey nodeEnd haloBox)
     }"

fun concatOpt :: "'a list option list \<Rightarrow> 'a list option" where
  "concatOpt [] = Some []"
| "concatOpt (x # xs) = do { a \<leftarrow> x; b \<leftarrow> concatOpt xs; Some (a @ b) }"

text \<open>
  Modelled from the spec: the recursive traversal of the CPU implementation ("CPU
  implementation may recurse") is not under src/. The recursion depth is bounded ("all
  traversals are bounded by the fixed maximum tree depth"): a traversal that would go deeper
  than \<open>depth\<close> levels is \<open>None\<close>.
\<close>

fun traverseRec ::
  "(TreeNodeIndex \<Rightarrow> bool option) \<Rightarrow> TreeNodeIndex list \<Rightarrow> nat \<Rightarrow> TreeNodeIndex \<Rightarrow>
   TreeNodeIndex list option" where
  "traverseRec crit childOffsets 0 n = None"
| "traverseRec crit childOffsets (Suc d) n =
     do {
       c \<leftarrow> crit n;
       if \<not> c then Some []
       else do {
         off \<leftarrow> rd childOffsets n;
         if off = 0 then Some [n]
         else concatOpt (map (\<lambda>octant. traverseRec crit childOffsets d (off + int octant)) [0..<8])
       }
     }"

text \<open>
  Modelled from the spec: the iterative traversal of the GPU implementation ("GPU
  implementation must use an explicit bounded-depth stack/loop per thread", "an explicit
  fixed-capacity stack sized to the known maximum tree depth") is not under src/. A push
  beyond the capacity of the stack is \<open>None\<close>, and so is a loop that does not end.
\<close>

partial_function (option) traverseStack ::
  "(TreeNodeIndex \<Rightarrow> bool option) \<Rightarrow> TreeNodeIndex list \<Rightarrow> nat \<Rightarrow> TreeNodeIndex list \<Rightarrow>
   TreeNodeIndex list \<Rightarrow> TreeNodeIndex list option" where
  "traverseStack crit childOffsets capacity stack found =
     (case stack of
        [] \<Rightarrow> Some found
      | n # rest \<Rightarrow>
          do {
            c \<leftarrow> crit n;
            if \<not> c then traverseStack crit childOffsets capacity rest found
            else do {
              off \<leftarrow> rd childOffsets n;
              if off = 0 then traverseStack crit childOffsets capacity rest (found @ [n])
              else if capacity < length rest + 8 then None
              else traverseStack crit childOffsets capacity
                     (map (\<lambda>octant. off + int octant) [0..<8] @ rest) found
            }
          })"

declare traverseStack.simps [code]

definition findCollisionsCpu ::
  "('w::len word, 'r, 'b, 'ib) cstone \<Rightarrow> ('w word \<Rightarrow> 'w word \<Rightarrow> 'ib \<Rightarrow> bool) \<Rightarrow> nat \<Rightarrow>
   'w word list \<Rightarrow> TreeNodeIndex list \<Rightarrow> 'ib \<Rightarrow> 'w word \<Rightarrow> 'w word \<Rightarrow> TreeNodeIndex list option" where
  "findCollisionsCpu h overlaps depth nodePrefixes childOffsets haloBox lowestKey highestKey =
     traverseRec (collides h overlaps nodePrefixes haloBox lowestKey highestKey) childOffsets depth 0"

definition findCollisionsGpu ::
  "('w::len word, 'r, 'b, 'ib) cstone \<Rightarrow> ('w word \<Rightarrow> 'w word \<Rightarrow> 'ib \<Rightarrow> bool) \<Rightarrow> nat \<Rightarrow>
   'w word list \<Rightarrow> TreeNodeIndex list \<Rightarrow> 'ib \<Rightarrow> 'w word \<Rightarrow> 'w word \<Rightarrow> TreeNodeIndex list option" where
  "findCollisionsGpu h overlaps capacity nodePrefixes childOffsets haloBox lowestKey highestKey =
     traverseStack (collides h overlaps nodePrefixes haloBox lowestKey highestKey) childOffsets
       capacity [0] []"

text \<open>
  Modelled from the spec: the CPU driver of halo discovery (\<open>findHalos\<close>) is not under src/.
  Section 4.5: "Algorithm, per local leaf i: 1. Compute haloBox = local leaf's box expanded by
  its interaction radius. 2. Compute [lowestKey, highestKey), the key span of the whole local
  assignment [firstNode, lastNode). 3. Fast path: if haloBox is fully contained in
  [lowestKey, highestKey), skip traversal entirely. 4. Otherwise, traverse the linked tree
  from the root; every overlapping leaf reached is flagged." Its input is the input of the GPU
  driver: the linked octree, the radii, the local range and the box.
\<close>

definition findHalosLeaf ::
  "('w::len word, 'r, 'b, 'ib) cstone \<Rightarrow> 'w word list \<Rightarrow> TreeNodeIndex list \<Rightarrow>
   TreeNodeIndex list \<Rightarrow> TreeNodeIndex list \<Rightarrow> 'r list \<Rightarrow> 'b \<Rightarrow> TreeNodeIndex \<Rightarrow> TreeNodeIndex \<Rightarrow>
   TreeNodeIndex \<Rightarrow> int list \<Rightarrow> int list option" where
  "findHalosLeaf h nodePrefixes childOffsets toInternalOrder toLeafOrder interactionRadii box
       firstNode lastNode i flags =
     do {
       radius \<leftarrow> rd interactionRadii i;
       node \<leftarrow> rd toInternalOrder i;
       prefix \<leftarrow> rd nodePrefixes node;
       let haloBox = makeHaloBox h (keyStart h prefix) (keyEnd h prefix) radius box;
       firstLeaf \<leftarrow> rd toInternalOrder firstNode;
       firstPrefix \<leftarrow> rd nodePrefixes firstLeaf;
       lastLeaf \<leftarrow> rd toInternalOrder (lastNode - 1);
       lastPrefix \<leftarrow> rd nodePrefixes lastLeaf;
       let lowestKey = keyStart h firstPrefix;
       let highestKey = keyEnd h lastPrefix;
       if containedIn h lowestKey highestKey haloBox then Some flags
       else do {
         leaves \<leftarrow> findCollisions h nodePrefixes childOffsets haloBox lowestKey highestKey;
         forEach (\<lambda>fs n. do { l \<leftarrow> rd toLeafOrder n; wr fs l 1 }) leaves flags
       }
     }"

definition findHalosCpu ::
  "('w::len word, 'r, 'b, 'ib) cstone \<Rightarrow> 'w word list \<Rightarrow> TreeNodeIndex list \<Rightarrow>
   TreeNodeIndex list \<Rightarrow> TreeNodeIndex list \<Rightarrow> 'r list \<Rightarrow> 'b \<Rightarrow> TreeNodeIndex \<Rightarrow> TreeNodeIndex \<Rightarrow>
   int list \<Rightarrow> int list option" where
  "findHalosCpu h nodePrefixes childOffsets toInternalOrder toLeafOrder interactionRadii box
       firstNode lastNode flags =
     forEach (\<lambda>fs i. findHalosLeaf h nodePrefixes childOffsets toInternalOrder toLeafOrder
                        interactionRadii box firstNode lastNode i fs)
       [firstNode..lastNode - 1] flags"

text \<open>The nodes of the linked octree: the root, and the eight children of every inner node.\<close>

inductive reach :: "TreeNodeIndex list \<Rightarrow> TreeNodeIndex \<Rightarrow> bool" for childOffsets where
  root: "reach childOffsets 0"
| child: "reach childOffsets m \<Longrightarrow> rd childOffsets m = Some off \<Longrightarrow> off \<noteq> 0 \<Longrightarrow> octant < 8 \<Longrightarrow>
          reach childOffsets (off + int octant)"

code_pred reach .

section \<open>Boxes as cells, and the invariants of the tree\<close>

text \<open>
  Modelled from the spec: \<open>containedIn\<close> and the overlap test of the traversal are not under
  src/. Section 3: a key encodes a grid cell "at a maximum tree depth"; section 4.1: \<open>decode\<close>
  gives "the minimal cube at max depth containing that key". A box is made of such cells and
  is given here by the keys of its cells, \<open>cells\<close>; the box of a node is made of the cells
  whose keys lie in the key range of the node. Section 4.5, step 3: the fast path is taken
  "if haloBox is fully contained in [lowestKey, highestKey)", when the key of every cell of
  the halo box lies in the span. Step 4: a node is entered when its "box overlaps haloBox",
  when the key of some cell of the halo box lies in the key range of the node.
\<close>

definition containedInCells ::
  "('ib \<Rightarrow> 'w::len word list) \<Rightarrow> 'w word \<Rightarrow> 'w word \<Rightarrow> 'ib \<Rightarrow> bool" where
  "containedInCells cells lowestKey highestKey haloBox \<longleftrightarrow>
     list_all (\<lambda>k. lowestKey \<le> k \<and> k < highestKey) (cells haloBox)"

definition overlapsCells ::
  "('ib \<Rightarrow> 'w::len word list) \<Rightarrow> 'w word \<Rightarrow> 'w word \<Rightarrow> 'ib \<Rightarrow> bool" where
  "overlapsCells cells nodeKey nodeEnd haloBox \<longleftrightarrow>
     list_ex (\<lambda>k. nodeKey \<le> k \<and> k < nodeEnd) (cells haloBox)"

definition withCells ::
  "('w::len word, 'r, 'b, 'ib) cstone \<Rightarrow> ('ib \<Rightarrow> 'w word list) \<Rightarrow> ('w word, 'r, 'b, 'ib) cstone" where
  "withCells h cells = h\<lparr>containedIn := containedInCells cells\<rparr>"

text \<open>
  Section 3, the node prefixes: there is one for each node of the linked octree, and "an
  ancestor's prefix is a numeric prefix of every descendant's prefix", so the key range of
  each of the eight children of a node lies in the key range of the node.
\<close>

definition nestedRanges ::
  "('w::len word, 'r, 'b, 'ib) cstone \<Rightarrow> 'w word list \<Rightarrow> TreeNodeIndex list \<Rightarrow> bool" where
  "nestedRanges h nodePrefixes childOffsets \<longleftrightarrow>
     length nodePrefixes = length childOffsets \<and>
     list_all (\<lambda>m. childOffsets ! m \<noteq> 0 \<longrightarrow>
        list_all (\<lambda>octant.
           case rd nodePrefixes (childOffsets ! m + int octant) of
             None \<Rightarrow> False
           | Some child \<Rightarrow> keyStart h (nodePrefixes ! m) \<le> keyStart h child \<and>
                          keyEnd h child \<le> keyEnd h (nodePrefixes ! m))
          [0..<8])
       [0..<length childOffsets]"

text \<open>
  Section 3, the cornerstone leaf array: the leaves are "sorted", their key ranges are
  "non-overlapping intervals". Leaf \<open>j\<close> is node \<open>toInternalOrder[j]\<close>; its key range does
  not end before it starts, and the key range of the next leaf starts where it ends or later.
\<close>

definition leafStart ::
  "('w::len word, 'r, 'b, 'ib) cstone \<Rightarrow> 'w word list \<Rightarrow> TreeNodeIndex list \<Rightarrow> nat \<Rightarrow> 'w word" where
  "leafStart h nodePrefixes toInternalOrder j = keyStart h (nodePrefixes ! nat (toInternalOrder ! j))"

definition leafEnd ::
  "('w::len word, 'r, 'b, 'ib) cstone \<Rightarrow> 'w word list \<Rightarrow> TreeNodeIndex list \<Rightarrow> nat \<Rightarrow> 'w word" where
  "leafEnd h nodePrefixes toInternalOrder j = keyEnd h (nodePrefixes ! nat (toInternalOrder ! j))"

definition sortedLeaves ::
  "('w::len word, 'r, 'b, 'ib) cstone \<Rightarrow> 'w word list \<Rightarrow> TreeNodeIndex list \<Rightarrow> bool" where
  "sortedLeaves h nodePrefixes toInternalOrder \<longleftrightarrow>
     list_all (\<lambda>j. leafStart h nodePrefixes toInternalOrder j \<le> leafEnd h nodePrefixes toInternalOrder j \<and>
                   (Suc j < length toInternalOrder \<longrightarrow>
                    leafEnd h nodePrefixes toInternalOrder j
                      \<le> leafStart h nodePrefixes toInternalOrder (Suc j)))
       [0..<length toInternalOrder]"

text \<open>
  Section 3, the linked octree: "paired permutation tables map cornerstone-leaf indices and
  linked-tree node indices". A node without children is a leaf: \<open>toLeafOrder\<close> gives its leaf
  index and \<open>toInternalOrder\<close> leads back to the node.
\<close>

definition pairedTables :: "TreeNodeIndex list \<Rightarrow> TreeNodeIndex list \<Rightarrow> TreeNodeIndex list \<Rightarrow> bool" where
  "pairedTables childOffsets toInternalOrder toLeafOrder \<longleftrightarrow>
     list_all (\<lambda>n. childOffsets ! n = 0 \<longrightarrow>
        (case rd toLeafOrder (int n) of
           None \<Rightarrow> False
         | Some l \<Rightarrow> rd toInternalOrder l = Some (int n)))
       [0..<length childOffsets]"

text \<open>
  Two properties of a descent criterion, each derived below from the invariants of the tree.
  A child that meets the criterion has a parent that meets it, so the traversal from the root
  reaches every leaf that meets it.
\<close>

definition inheritsUp :: "(TreeNodeIndex \<Rightarrow> bool option) \<Rightarrow> TreeNodeIndex list \<Rightarrow> bool" where
  "inheritsUp crit childOffsets \<longleftrightarrow>
     (\<forall>m \<in> set [0..<length childOffsets]. \<forall>octant \<in> set [0..<8].
        childOffsets ! m \<noteq> 0 \<and> crit (childOffsets ! m + int octant) = Some True \<longrightarrow>
        crit (int m) = Some True)"

text \<open>
  A halo box on which \<open>containedIn\<close> holds meets no leaf that lies outside the key span of the
  local range, so the early return of the kernel skips no leaf that the traversal would find.
\<close>

definition fastPathSound ::
  "('w::len word, 'r, 'b, 'ib) cstone \<Rightarrow> ('w word \<Rightarrow> 'w word \<Rightarrow> 'ib \<Rightarrow> bool) \<Rightarrow> 'w word list \<Rightarrow>
   TreeNodeIndex list \<Rightarrow> 'ib \<Rightarrow> 'w word \<Rightarrow> 'w word \<Rightarrow> bool" where
  "fastPathSound h overlaps nodePrefixes childOffsets haloBox lowestKey highestKey \<longleftrightarrow>
     (containedIn h lowestKey highestKey haloBox \<longrightarrow>
      (\<forall>n \<in> set [0..<length childOffsets]. childOffsets ! n = 0 \<longrightarrow>
         collides h overlaps nodePrefixes haloBox lowestKey highestKey (int n) \<noteq> Some True))"
section \<open>An instance: keys on a line\<close>

text \<open>
  Modelled from the spec: the key codec is not under src/. Section 3: a node prefix is "a key
  with a single marker bit inserted at position 3 x level"; section 4.1: "nodeRange(level) =
  total key space / 8^level", "decodePlaceholderBit, decodePrefixLength: extract raw key and
  tree level from a node prefix". For 64-bit keys the tree has 21 levels. The kernel divides
  the prefix length by 3, so \<open>decodePrefixLength\<close> is the position of the marker bit.
\<close>

fun highestBit :: "nat \<Rightarrow> nat" where
  "highestBit n = (if n < 2 then 0 else Suc (highestBit (n div 2)))"

declare highestBit.simps [simp del]

definition maxTreeLevel64 :: nat where
  "maxTreeLevel64 = 21"

definition decodePrefixLength64 :: "64 word \<Rightarrow> nat" where
  "decodePrefixLength64 code = highestBit (unat code)"

definition decodePlaceholderBit64 :: "64 word \<Rightarrow> 64 word" where
  "decodePlaceholderBit64 code =
     (let prefixLength = decodePrefixLength64 code
      in push_bit (3 * maxTreeLevel64 - prefixLength) (code XOR push_bit prefixLength 1))"

definition nodeRange64 :: "nat \<Rightarrow> 64 word" where
  "nodeRange64 level = push_bit (3 * (maxTreeLevel64 - level)) 1"

text \<open>
  A geometry to run the drivers on: space is the key line itself, a box is an interval of
  keys, the halo box of a key range is the range widened by the radius on both sides.
\<close>

definition lineHaloBox :: "64 word \<Rightarrow> 64 word \<Rightarrow> 64 word \<Rightarrow> unit \<Rightarrow> 64 word \<times> 64 word" where
  "lineHaloBox lo hi radius box =
     ((if lo < radius then 0 else lo - radius),
      (if nodeRange64 0 - hi < radius then nodeRange64 0 else hi + radius))"

definition lineContainedIn :: "64 word \<Rightarrow> 64 word \<Rightarrow> 64 word \<times> 64 word \<Rightarrow> bool" where
  "lineContainedIn lo hi hb \<longleftrightarrow> lo \<le> fst hb \<and> snd hb \<le> hi"

definition lineOverlaps :: "64 word \<Rightarrow> 64 word \<Rightarrow> 64 word \<times> 64 word \<Rightarrow> bool" where
  "lineOverlaps lo hi hb \<longleftrightarrow> fst hb < hi \<and> lo < snd hb"

text \<open>The cells of an interval of the key line: one for each key of the interval.\<close>

definition lineCells :: "64 word \<times> 64 word \<Rightarrow> 64 word list" where
  "lineCells hb = map word_of_nat [unat (fst hb)..<unat (snd hb)]"

definition lineCodec :: "(64 word, 64 word, unit, 64 word \<times> 64 word) cstone" where
  "lineCodec =
     \<lparr> decodePlaceholderBit = decodePlaceholderBit64,
       decodePrefixLength = decodePrefixLength64,
       nodeRange = nodeRange64,
       makeHaloBox = lineHaloBox,
       containedIn = lineContainedIn,
       findCollisions = (\<lambda>np co hb lo hi. None),
       iceil = (\<lambda>n d. nat ((n + int d - 1) div int d)) \<rparr>"

definition lineGpu :: "(64 word, 64 word, unit, 64 word \<times> 64 word) cstone" where
  "lineGpu = lineCodec \<lparr> findCollisions := findCollisionsGpu lineCodec lineOverlaps 15 \<rparr>"

definition lineCpu :: "(64 word, 64 word, unit, 64 word \<times> 64 word) cstone" where
  "lineCpu = lineCodec \<lparr> findCollisions := findCollisionsCpu lineCodec lineOverlaps 3 \<rparr>"

text \<open>
  A linked octree of 17 nodes: the root, its eight children, and the eight children of the
  child with octant 3. It has 15 leaves; leaves 3 to 10 are the eight deepest ones.
\<close>

definition exPrefixes :: "64 word list" where
  "exPrefixes = [1, 8, 9, 10, 11, 12, 13, 14, 15, 88, 89, 90, 91, 92, 93, 94, 95]"
definition exChildOffsets :: "int list" where
  "exChildOffsets = [1, 0, 0, 0, 9, 0, 0, 0, 0, 0, 0, 0, 0, 0, 0, 0, 0]"
definition exToInternal :: "int list" where
  "exToInternal = [1, 2, 3, 9, 10, 11, 12, 13, 14, 15, 16, 5, 6, 7, 8]"
definition exToLeaf :: "int list" where
  "exToLeaf = [-1, 0, 1, 2, -1, 11, 12, 13, 14, 3, 4, 5, 6, 7, 8, 9, 10]"
definition exRadii :: "64 word list" where
  "exRadii = [0, 0, 0, 5, 0, 0, 0, 0, 0, 0, 7, 0, 0, 0, 0]"
definition exRadiiZero :: "64 word list" where
  "exRadiiZero = [0, 0, 0, 0, 0, 0, 0, 0, 0, 0, 0, 0, 0, 0, 0]"
definition exFlags :: "int list" where
  "exFlags = [0, 0, 0, 0, 0, 0, 0, 0, 0, 0, 0, 0, 0, 0, 0]"
definition exFlagsUsed :: "int list" where
  "exFlagsUsed = [0, 0, 0, 0, 0, 7, 0, 0, 0, 0, 0, 0, 0, 0, 1]"

section \<open>The loop drivers of the SPH kernels\<close>

text \<open>
  The drivers \<open>computeRho0Impl\<close> and \<open>computeMomentumEnergyImpl\<close> call a j-loop once for
  every particle \<open>i\<close> of \<open>[startIndex, endIndex)\<close>. What decides the reads of the neighbor
  list is the call: the particle, the offset of the pointer \<open>neighbors + ngmax * ni\<close> into the
  neighbor list, and the count that is passed.
\<close>

record jLoopCall =
  particle :: nat
  neighborsAt :: nat
  passedCount :: int

text \<open>
  The body of the loop of \<open>computeRho0Impl\<close> for particle \<open>i\<close>:
  \<open>ni = i - startIndex\<close>, pointer \<open>neighbors + ngmax * ni\<close>, count \<open>neighborsCount[i]\<close>.
\<close>

definition rho0Call :: "nat \<Rightarrow> nat \<Rightarrow> int list \<Rightarrow> nat \<Rightarrow> jLoopCall option" where
  "rho0Call startIndex ngmax neighborsCount i =
     do {
       count \<leftarrow> rd neighborsCount (int i);
       let ni = i - startIndex;
       Some \<lparr> particle = i, neighborsAt = ngmax * ni, passedCount = count \<rparr>
     }"

definition computeRho0Impl :: "nat \<Rightarrow> nat \<Rightarrow> nat \<Rightarrow> int list \<Rightarrow> jLoopCall list option" where
  "computeRho0Impl startIndex endIndex ngmax neighborsCount =
     those (map (rho0Call startIndex ngmax neighborsCount) [startIndex..<endIndex])"

text \<open>
  The body of the loop of \<open>computeMomentumEnergyImpl\<close> for particle \<open>i\<close>:
  \<open>nc = stl::min(neighborsCount[i], ngmax)\<close> is passed. Here \<open>ngmax\<close> is an \<open>int\<close>; the
  pointer offset \<open>ngmax * ni\<close> is computed in \<open>size_t\<close>, where a negative \<open>ngmax\<close> would wrap
  around: the statements below are about \<open>ngmax \<ge> 0\<close>.
\<close>

definition momentumEnergyCall :: "nat \<Rightarrow> int \<Rightarrow> int list \<Rightarrow> nat \<Rightarrow> jLoopCall option" where
  "momentumEnergyCall startIndex ngmax neighborsCount i =
     do {
       count \<leftarrow> rd neighborsCount (int i);
       let ni = i - startIndex;
       let nc = min count ngmax;
       Some \<lparr> particle = i, neighborsAt = nat ngmax * ni, passedCount = nc \<rparr>
     }"

definition computeMomentumEnergyImpl :: "nat \<Rightarrow> nat \<Rightarrow> int \<Rightarrow> int list \<Rightarrow> jLoopCall list option" where
  "computeMomentumEnergyImpl startIndex endIndex ngmax neighborsCount =
     those (map (momentumEnergyCall startIndex ngmax neighborsCount) [startIndex..<endIndex])"

text \<open>
  Modelled from the spec: the j-loops \<open>rho0JLoop\<close> and \<open>momentumAndEnergyJLoop\<close> are not
  under src/. They are the consumers of the neighbor list of section 4.6: a j-loop reads the
  entries \<open>0\<close> to \<open>count - 1\<close> of the list it is given. The result is the list of the indices
  it reads in the whole neighbor array.
\<close>

definition jLoopReads :: "jLoopCall \<Rightarrow> nat list" where
  "jLoopReads c = map (\<lambda>pj. neighborsAt c + pj) [0..<nat (passedCount c)]"

text \<open>The slot of the particle with local index \<open>ni\<close>: \<open>ngmax\<close> entries from \<open>ngmax * ni\<close>.\<close>

definition inSlot :: "nat \<Rightarrow> nat \<Rightarrow> nat \<Rightarrow> bool" where
  "inSlot ngmax ni k \<longleftrightarrow> ngmax * ni \<le> k \<and> k < ngmax * ni + ngmax"

text \<open>
  Modelled from the spec: the neighbor search (\<open>findNeighbors\<close>) is not under src/. Section
  4.6: "Output: list of neighbor indices within radius, truncated at ngmax if exceeded
  (truncation is a documented approximation, reported via an accurate found-count, not an
  error)"; "within included leaves, test each candidate particle's exact distance". The
  candidates are the particles of the leaves that the descent does not prune; the distance
  test, a floating-point comparison, is the parameter \<open>within\<close>.
\<close>

fun findNeighborsLoop :: "nat \<Rightarrow> (nat \<Rightarrow> bool) \<Rightarrow> nat list \<Rightarrow> nat list \<times> nat \<Rightarrow> nat list \<times> nat" where
  "findNeighborsLoop ngmax within [] found = found"
| "findNeighborsLoop ngmax within (j # js) (neighbors, numNeighbors) =
     findNeighborsLoop ngmax within js
       (if within j
        then ((if numNeighbors < ngmax then neighbors @ [j] else neighbors), numNeighbors + 1)
        else (neighbors, numNeighbors))"

definition findNeighbors :: "nat \<Rightarrow> (nat \<Rightarrow> bool) \<Rightarrow> nat list \<Rightarrow> nat list \<times> nat" where
  "findNeighbors ngmax within candidates = findNeighborsLoop ngmax within candidates ([], 0)"

section \<open>The key codec and the cornerstone array, from the specification\<close>

text \<open>
  Modelled from the spec: the key codec (\<open>encode\<close>, \<open>decode\<close>) is not under src/. Section 4.1:
  "encode quantizes coordinates into per-axis bit fields at the maximum depth, interleaves
  them deterministically"; "decode(key): inverse mapping to the minimal cube at max depth
  containing that key". The quantization is floating-point arithmetic and is not modelled:
  the codec starts from the quantized coordinates, one bit field of \<open>maxTreeLevel\<close> bits per
  axis. One level of the key is one octal digit, \<open>4 * x + 2 * y + z\<close> of the bits of that
  level; the deepest level is the lowest digit.
\<close>

fun interleave :: "nat \<Rightarrow> nat \<Rightarrow> nat \<Rightarrow> nat \<Rightarrow> nat" where
  "interleave 0 ix iy iz = 0"
| "interleave (Suc level) ix iy iz =
     8 * interleave level (ix div 2) (iy div 2) (iz div 2)
       + (4 * (ix mod 2) + 2 * (iy mod 2) + iz mod 2)"

fun deinterleave :: "nat \<Rightarrow> nat \<Rightarrow> nat \<times> nat \<times> nat" where
  "deinterleave 0 key = (0, 0, 0)"
| "deinterleave (Suc level) key =
     (case deinterleave level (key div 8) of
        (ix, iy, iz) \<Rightarrow>
          (2 * ix + (key mod 8) div 4, 2 * iy + ((key mod 8) div 2) mod 2, 2 * iz + key mod 2))"

record IBox =
  xmin :: nat
  xmax :: nat
  ymin :: nat
  ymax :: nat
  zmin :: nat
  zmax :: nat

definition encode :: "nat \<times> nat \<times> nat \<Rightarrow> 64 word" where
  "encode p = (case p of (ix, iy, iz) \<Rightarrow> word_of_nat (interleave maxTreeLevel64 ix iy iz))"

definition decode :: "64 word \<Rightarrow> IBox" where
  "decode key =
     (case deinterleave maxTreeLevel64 (unat key) of
        (ix, iy, iz) \<Rightarrow>
          \<lparr> xmin = ix, xmax = ix + 1, ymin = iy, ymax = iy + 1, zmin = iz, zmax = iz + 1 \<rparr>)"

definition containsPoint :: "IBox \<Rightarrow> nat \<times> nat \<times> nat \<Rightarrow> bool" where
  "containsPoint b p \<longleftrightarrow>
     (case p of (ix, iy, iz) \<Rightarrow>
        xmin b \<le> ix \<and> ix < xmax b \<and> ymin b \<le> iy \<and> iy < ymax b \<and> zmin b \<le> iz \<and> iz < zmax b)"

text \<open>A point is quantized when each coordinate fits its bit field.\<close>

definition quantized :: "nat \<times> nat \<times> nat \<Rightarrow> bool" where
  "quantized p \<longleftrightarrow>
     (case p of (ix, iy, iz) \<Rightarrow>
        ix < 2 ^ maxTreeLevel64 \<and> iy < 2 ^ maxTreeLevel64 \<and> iz < 2 ^ maxTreeLevel64)"

text \<open>
  The cornerstone leaf array (section 3): the boundary keys of the leaves, starting at 0,
  ending at the size \<open>K\<close> of the key space (\<open>nodeRange(0)\<close>), strictly increasing.
\<close>

definition cornerstone :: "nat \<Rightarrow> nat list \<Rightarrow> bool" where
  "cornerstone K tree \<longleftrightarrow> tree \<noteq> [] \<and> hd tree = 0 \<and> last tree = K \<and> sorted_wrt (<) tree"

text \<open>
  Modelled from the spec: the split/fuse pass of OctreeBuilder is not under src/. Section
  4.2: "Any leaf exceeding B is split into 8 children at the next level; any maximal run of
  sibling leaves whose combined count is <= B is fused back into their parent"; a leaf at the
  maximum depth (a key range of 1) is not split (section 8). Eight sibling leaves are eight
  leaves in a row of one size \<open>r\<close>, the first at a multiple of \<open>8 * r\<close>. A pass decides an
  operation for every leaf: 8 (split into eight), 1 (keep; the first of a fused run becomes
  the parent) or 0 (the other seven leaves of a fused run go away), and then writes the new
  array "by only ever replacing a contiguous leaf run with its split/fused equivalent".
\<close>

definition siblingRun :: "nat list \<Rightarrow> nat \<Rightarrow> nat option" where
  "siblingRun tree i =
     (let r = tree ! Suc i - tree ! i;
          octant = (tree ! i div r) mod 8
      in if octant \<le> i \<and> i - octant + 8 < length tree \<and>
            tree ! (i - octant) mod (8 * r) = 0 \<and>
            (\<forall>k \<in> set [0..<9]. tree ! (i - octant + k) = tree ! (i - octant) + k * r)
         then Some (i - octant) else None)"

definition rebalanceDecision :: "nat list \<Rightarrow> nat list \<Rightarrow> nat \<Rightarrow> nat \<Rightarrow> nat" where
  "rebalanceDecision tree counts bucketSize i =
     (if bucketSize < counts ! i \<and> 8 \<le> tree ! Suc i - tree ! i then 8
      else
        (case siblingRun tree i of
           None \<Rightarrow> 1
         | Some first \<Rightarrow>
             if sum_list (map (\<lambda>k. counts ! (first + k)) [0..<8]) \<le> bucketSize
             then (if i = first then 1 else 0)
             else 1))"

definition nodeOps :: "nat list \<Rightarrow> nat list \<Rightarrow> nat \<Rightarrow> nat list" where
  "nodeOps tree counts bucketSize =
     map (rebalanceDecision tree counts bucketSize) [0..<length tree - 1]"

fun rebalanceTree :: "nat list \<Rightarrow> nat list \<Rightarrow> nat list" where
  "rebalanceTree (a # b # rest) (opn # ops) =
     (if opn = 8 then map (\<lambda>k. a + k * ((b - a) div 8)) [0..<8]
      else if opn = 1 then [a] else [])
     @ rebalanceTree (b # rest) ops"
| "rebalanceTree tree ops = tree"

definition rebalancePass :: "nat \<Rightarrow> nat list \<Rightarrow> nat list \<Rightarrow> nat list" where
  "rebalancePass bucketSize tree counts = rebalanceTree tree (nodeOps tree counts bucketSize)"

text \<open>A split is only decided for a leaf with a key range of at least 8.\<close>

fun splittable :: "nat list \<Rightarrow> nat list \<Rightarrow> bool" where
  "splittable (a # b # rest) (opn # ops) \<longleftrightarrow> (opn = 8 \<longrightarrow> 8 \<le> b - a) \<and> splittable (b # rest) ops"
| "splittable tree ops \<longleftrightarrow> True"

section \<open>Marks and flag arrays\<close>

lemma flagAll_empty: "flagAll flags {} = flags"
  by (simp add: flagAll_def map_nth)

lemma length_flagAll [simp]: "length (flagAll flags T) = length flags"
  by (simp add: flagAll_def)

lemma nth_flagAll:
  "j < length flags \<Longrightarrow> flagAll flags T ! j = (if int j \<in> T then 1 else flags ! j)"
  by (simp add: flagAll_def)

lemma flagAll_update:
  "0 \<le> l \<Longrightarrow> l < int (length flags) \<Longrightarrow> flagAll (flags[nat l := 1]) T = flagAll flags (insert l T)"
  by (auto simp: flagAll_def nth_list_update intro!: nth_equalityI)

lemma flagAll_flagAll: "flagAll (flagAll flags A) B = flagAll flags (A \<union> B)"
  by (auto simp: flagAll_def intro!: nth_equalityI)

lemma forEach_mark:
  "forEach (markCollisions tlo) ms flags =
     (if marksOk tlo (length flags) ms then Some (flagAll flags (targets tlo ms)) else None)"
proof (induction ms arbitrary: flags)
  case Nil
  then show ?case by (simp add: marksOk_def targets_def flagAll_empty)
next
  case (Cons i ms)
  show ?case
  proof (cases "\<exists>l. rd tlo i = Some l \<and> 0 \<le> l \<and> l < int (length flags)")
    case True
    then obtain l where l: "rd tlo i = Some l" "0 \<le> l" "l < int (length flags)" by blast
    have step: "markCollisions tlo flags i = Some (flags[nat l := 1])"
      using l by (simp add: markCollisions_def wr_def)
    have ok: "marksOk tlo (length flags) (i # ms) = marksOk tlo (length flags) ms"
      using l by (auto simp: marksOk_def)
    have tg: "targets tlo (i # ms) = insert l (targets tlo ms)"
      using l by (auto simp: targets_def)
    show ?thesis
      using Cons.IH [of "flags[nat l := 1]"] step ok tg flagAll_update [OF l(2,3)]
      by simp
  next
    case False
    then have "markCollisions tlo flags i = None"
      by (auto simp: markCollisions_def wr_def split: Option.bind_splits)
    moreover have "\<not> marksOk tlo (length flags) (i # ms)"
      using False by (auto simp: marksOk_def)
    ultimately show ?thesis by simp
  qed
qed

lemma runMarks_char:
  "runMarks tlo flags p =
     (if progOk tlo (length flags) p then Some (flagAll flags (progTargets tlo p)) else None)"
  by (cases p) (simp_all add: runMarks_def progOk_def progTargets_def forEach_mark)

lemma runMarks_Nil [simp]: "runMarks tlo flags (Some []) = Some flags"
  by (simp add: runMarks_def)

lemma forEach_runMarks:
  "forEach (runMarks tlo) ps flags =
     (if \<forall>p \<in> set ps. progOk tlo (length flags) p
      then Some (flagAll flags (\<Union>p \<in> set ps. progTargets tlo p)) else None)"
proof (induction ps arbitrary: flags)
  case Nil
  then show ?case by (simp add: flagAll_empty)
next
  case (Cons p ps)
  show ?case
  proof (cases "progOk tlo (length flags) p")
    case True
    then show ?thesis
      using Cons.IH [of "flagAll flags (progTargets tlo p)"]
      by (simp add: runMarks_char flagAll_flagAll)
  next
    case False
    then show ?thesis by (simp add: runMarks_char)
  qed
qed

lemma forEach_map: "forEach f (map g xs) s = forEach (\<lambda>s' x. f s' (g x)) xs s"
  by (induction xs arbitrary: s) (auto split: option.splits)

lemma forEach_cong:
  "(\<And>x s'. x \<in> set xs \<Longrightarrow> f s' x = g s' x) \<Longrightarrow> forEach f xs s = forEach g xs s"
  by (induction xs arbitrary: s) (auto split: option.splits)

section \<open>The kernel and the launch as lists of marks\<close>

lemma kernel_marks:
  "findHalosKernel h np co tio tlo radii box fn ln b d t flags =
     (if leafIdxOf b d t fn < u32 ln
      then runMarks tlo flags (threadCollisions h np co tio radii box fn ln (leafIdxOf b d t fn))
      else Some flags)"
  by (auto simp: findHalosKernel_def threadCollisions_def runMarks_def Let_def keyStart_def
        keyEnd_def split: Option.bind_splits option.splits)

lemma findHalosGpu_progs:
  "findHalosGpu sched h np co tio tlo radii box fn ln flags =
     (if schedule (iceil h (ln - fn) 128) 128 sched
      then forEach (runMarks tlo) (map (threadProg h np co tio radii box fn ln) sched) flags
      else None)"
  unfolding findHalosGpu_def launch_def Let_def forEach_map
  by (auto intro!: forEach_cong simp: kernel_marks threadProg_def)

lemma markCollisions_lambda:
  "(\<lambda>fs n. do { l \<leftarrow> rd tlo n; wr fs l 1 }) = markCollisions tlo"
  by (intro ext) (simp add: markCollisions_def)

lemma leaf_marks:
  "findHalosLeaf h np co tio tlo radii box fn ln i flags =
     runMarks tlo flags (threadCollisions h np co tio radii box fn ln i)"
  unfolding findHalosLeaf_def markCollisions_lambda
  by (auto simp: threadCollisions_def runMarks_def Let_def
        split: Option.bind_splits option.splits)

lemma findHalosCpu_progs:
  "findHalosCpu h np co tio tlo radii box fn ln flags =
     forEach (runMarks tlo) (map (threadCollisions h np co tio radii box fn ln) [fn..ln - 1]) flags"
  unfolding findHalosCpu_def forEach_map by (simp add: leaf_marks)

section \<open>The grid of findHalosGpu\<close>

lemma grid_mem: "(b, t) \<in> set (grid nb nt) \<longleftrightarrow> b < nb \<and> t < nt"
  by (auto simp: grid_def)

lemma schedule_set: "schedule nb nt sched \<Longrightarrow> set sched = set (grid nb nt)"
  unfolding schedule_def by (metis set_mset_mset)

lemma grid_leafIdx:
  assumes "validRange fn ln" "iceilSpec h (ln - fn) 128"
    and "b < iceil h (ln - fn) 128" "t < 128"
  shows "leafIdxOf b 128 t fn = int b * 128 + int t + fn" and "u32 ln = ln"
    and "fn \<le> int b * 128 + int t + fn"
proof -
  have "int b * 128 + int t < int (iceil h (ln - fn) 128 * 128)"
    using assms(3,4) by simp
  then have "int b * 128 + int t + fn < ln + 128"
    using assms(2) by (simp add: iceilSpec_def)
  moreover have "0 \<le> int b * 128 + int t + fn"
    using assms(1) by (simp add: validRange_def)
  moreover have "ln + 128 < 2 ^ 32"
    using assms(1) by (simp add: validRange_def)
  ultimately show "leafIdxOf b 128 t fn = int b * 128 + int t + fn"
    by (simp add: leafIdxOf_def u32_def)
  show "u32 ln = ln"
    using assms(1) by (simp add: validRange_def u32_def)
  show "fn \<le> int b * 128 + int t + fn" by simp
qed

lemma grid_covers:
  assumes "validRange fn ln" "iceilSpec h (ln - fn) 128" "fn \<le> i" "i < ln"
  shows "nat (i - fn) div 128 < iceil h (ln - fn) 128" and "nat (i - fn) mod 128 < 128"
    and "int (nat (i - fn) div 128) * 128 + int (nat (i - fn) mod 128) + fn = i"
proof -
  have "int (nat (i - fn)) < int (iceil h (ln - fn) 128 * 128)"
    using assms by (simp add: iceilSpec_def)
  then have "nat (i - fn) < iceil h (ln - fn) 128 * 128"
    by linarith
  then show "nat (i - fn) div 128 < iceil h (ln - fn) 128"
    by (simp add: less_mult_imp_div_less)
  show "nat (i - fn) mod 128 < 128" by simp
  have "int (nat (i - fn) div 128) * 128 + int (nat (i - fn) mod 128) = int (nat (i - fn))"
    by (metis div_mult_mod_eq of_nat_add of_nat_mult of_nat_numeral)
  then show "int (nat (i - fn) div 128) * 128 + int (nat (i - fn) mod 128) + fn = i"
    using assms(3) by simp
qed

lemma threadProg_grid:
  assumes "validRange fn ln" "iceilSpec h (ln - fn) 128" "(b, t) \<in> set (grid (iceil h (ln - fn) 128) 128)"
  shows "threadProg h np co tio radii box fn ln (b, t) =
           (if int b * 128 + int t + fn < ln
            then threadCollisions h np co tio radii box fn ln (int b * 128 + int t + fn)
            else Some [])"
  using assms grid_leafIdx [OF assms(1,2), of b t]
  by (simp add: threadProg_def grid_mem)

text \<open>The programs of the launch are the programs of the local leaves, and idle ones.\<close>

lemma threadProg_image:
  assumes "validRange fn ln" "iceilSpec h (ln - fn) 128"
  shows "threadProg h np co tio radii box fn ln ` set (grid (iceil h (ln - fn) 128) 128) - {Some []}
         = threadCollisions h np co tio radii box fn ln ` {fn..ln - 1} - {Some []}"
    (is "?L = ?R")
proof (intro equalityI subsetI)
  fix p assume "p \<in> ?L"
  then obtain b t where bt: "(b, t) \<in> set (grid (iceil h (ln - fn) 128) 128)"
    and p: "p = threadProg h np co tio radii box fn ln (b, t)" and ne: "p \<noteq> Some []"
    by auto
  from p ne threadProg_grid [OF assms bt]
  have "int b * 128 + int t + fn < ln"
    and "p = threadCollisions h np co tio radii box fn ln (int b * 128 + int t + fn)"
    by (auto split: if_splits)
  then show "p \<in> ?R" using ne by auto
next
  fix p assume "p \<in> ?R"
  then obtain i where i: "fn \<le> i" "i < ln" and p: "p = threadCollisions h np co tio radii box fn ln i"
    and ne: "p \<noteq> Some []"
    by auto
  let ?b = "nat (i - fn) div 128" and ?t = "nat (i - fn) mod 128"
  have bt: "(?b, ?t) \<in> set (grid (iceil h (ln - fn) 128) 128)"
    using grid_covers [OF assms i] by (simp add: grid_mem)
  have "threadProg h np co tio radii box fn ln (?b, ?t) = p"
    using threadProg_grid [OF assms bt] grid_covers(3) [OF assms i] i p by simp
  then show "p \<in> ?L" using bt ne by (metis DiffI image_eqI singletonD)
qed

lemma progs_cong:
  assumes "A - {Some []} = B - {Some []}"
  shows "(\<forall>p \<in> A. progOk tlo n p) \<longleftrightarrow> (\<forall>p \<in> B. progOk tlo n p)"
    and "(\<Union>p \<in> A. progTargets tlo p) = (\<Union>p \<in> B. progTargets tlo p)"
proof -
  have ok: "progOk tlo n (Some [])" by (simp add: progOk_def marksOk_def)
  have tg: "progTargets tlo (Some []) = {}" by (simp add: progTargets_def targets_def)
  have "(\<forall>p \<in> A. progOk tlo n p) \<longleftrightarrow> (\<forall>p \<in> A - {Some []}. progOk tlo n p)" using ok by auto
  also have "\<dots> \<longleftrightarrow> (\<forall>p \<in> B - {Some []}. progOk tlo n p)" using assms by simp
  also have "\<dots> \<longleftrightarrow> (\<forall>p \<in> B. progOk tlo n p)" using ok by auto
  finally show "(\<forall>p \<in> A. progOk tlo n p) \<longleftrightarrow> (\<forall>p \<in> B. progOk tlo n p)" .
  have "(\<Union>p \<in> A. progTargets tlo p) = (\<Union>p \<in> A - {Some []}. progTargets tlo p)" using tg by auto
  also have "\<dots> = (\<Union>p \<in> B - {Some []}. progTargets tlo p)" using assms by simp
  also have "\<dots> = (\<Union>p \<in> B. progTargets tlo p)" using tg by auto
  finally show "(\<Union>p \<in> A. progTargets tlo p) = (\<Union>p \<in> B. progTargets tlo p)" .
qed

text \<open>The launch, whatever its schedule, does what the loop over the local leaves does.\<close>

lemma findHalosGpu_sequential:
  assumes "validRange fn ln" "iceilSpec h (ln - fn) 128" "schedule (iceil h (ln - fn) 128) 128 sched"
  shows "findHalosGpu sched h np co tio tlo radii box fn ln flags =
         findHalosCpu h np co tio tlo radii box fn ln flags"
proof -
  have s: "set sched = set (grid (iceil h (ln - fn) 128) 128)"
    using assms(3) by (rule schedule_set)
  note im = threadProg_image [OF assms(1,2), of np co tio radii box]
  note c = progs_cong(1) [where tlo = tlo and n = "length flags", OF im]
    progs_cong(2) [where tlo = tlo, OF im]
  show ?thesis
    unfolding findHalosGpu_progs findHalosCpu_progs forEach_runMarks
    using assms(3) c by (simp add: s)
qed

section \<open>Recursion and explicit stack\<close>

lemma traverseStack_Nil: "traverseStack crit co cap [] found = Some found"
  by (subst traverseStack.simps) simp

lemma traverseStack_Cons:
  "traverseStack crit co cap (n # rest) found =
     do {
       c \<leftarrow> crit n;
       if \<not> c then traverseStack crit co cap rest found
       else do {
         off \<leftarrow> rd co n;
         if off = 0 then traverseStack crit co cap rest (found @ [n])
         else if cap < length rest + 8 then None
         else traverseStack crit co cap (map (\<lambda>octant. off + int octant) [0..<8] @ rest) found
       }
     }"
  by (subst traverseStack.simps) simp

lemma concatOpt_Cons_Some:
  "concatOpt (x # xs) = Some ms \<longleftrightarrow> (\<exists>a b. x = Some a \<and> concatOpt xs = Some b \<and> ms = a @ b)"
  by (auto split: Option.bind_splits)

lemma concatOpt_map_mem:
  "concatOpt (map f xs) = Some ms \<Longrightarrow> x \<in> set xs \<Longrightarrow> \<exists>a. f x = Some a \<and> set a \<subseteq> set ms"
proof (induction xs arbitrary: ms)
  case Nil
  then show ?case by simp
next
  case (Cons y ys)
  from Cons.prems(1) obtain a b where
    ab: "f y = Some a" "concatOpt (map f ys) = Some b" "ms = a @ b"
    unfolding list.map concatOpt_Cons_Some by blast
  show ?case
  proof (cases "x = y")
    case True
    with ab show ?thesis by auto
  next
    case False
    with Cons.prems(2) have "x \<in> set ys" by simp
    from Cons.IH [OF ab(2) this] ab(3) show ?thesis by auto
  qed
qed

lemma traverseRec_0_children:
  "concatOpt (map (\<lambda>k. traverseRec crit co d (f k)) [0..<8]) = Some ms \<Longrightarrow> d \<noteq> 0"
  by (cases d) (auto simp: upt_conv_Cons)

lemma stack_nodes:
  assumes IH: "\<And>n rest ms found. traverseRec crit co d n = Some ms \<Longrightarrow>
            length rest + 7 * (d - 1) + 1 \<le> cap \<Longrightarrow>
            traverseStack crit co cap (n # rest) found = traverseStack crit co cap rest (found @ ms)"
  shows "concatOpt (map (traverseRec crit co d) ns) = Some ms \<Longrightarrow>
         length ns + length rest + 7 * (d - 1) \<le> cap \<Longrightarrow>
         traverseStack crit co cap (ns @ rest) found = traverseStack crit co cap rest (found @ ms)"
proof (induction ns arbitrary: ms found)
  case Nil
  then show ?case by simp
next
  case (Cons c cs)
  from Cons.prems(1) obtain a b where
    a: "traverseRec crit co d c = Some a" and b: "concatOpt (map (traverseRec crit co d) cs) = Some b"
    and ms: "ms = a @ b"
    unfolding list.map concatOpt_Cons_Some by blast
  have "traverseStack crit co cap (c # (cs @ rest)) found
        = traverseStack crit co cap (cs @ rest) (found @ a)"
    using Cons.prems(2) by (intro IH [OF a]) simp
  also have "\<dots> = traverseStack crit co cap rest ((found @ a) @ b)"
    using Cons.prems(2) by (intro Cons.IH [OF b]) simp
  finally show ?case by (simp add: ms)
qed

lemma stack_rec:
  "traverseRec crit co d n = Some ms \<Longrightarrow> length rest + 7 * (d - 1) + 1 \<le> cap \<Longrightarrow>
   traverseStack crit co cap (n # rest) found = traverseStack crit co cap rest (found @ ms)"
proof (induction d arbitrary: n rest ms found)
  case 0
  then show ?case by simp
next
  case (Suc d)
  from Suc.prems(1) obtain c where c: "crit n = Some c"
    by (auto split: Option.bind_splits)
  show ?case
  proof (cases c)
    case False
    with c Suc.prems(1) show ?thesis
      by (subst traverseStack_Cons) simp
  next
    case True
    with c Suc.prems(1) obtain off where off: "rd co n = Some off"
      by (auto split: Option.bind_splits)
    show ?thesis
    proof (cases "off = 0")
      case z: True
      with c True off Suc.prems(1) show ?thesis
        by (subst traverseStack_Cons) simp
    next
      case nz: False
      let ?ns = "map (\<lambda>octant. off + int octant) [0..<8]"
      have kids: "concatOpt (map (traverseRec crit co d) ?ns) = Some ms"
        using c True off nz Suc.prems(1) by (simp add: comp_def)
      then have d: "d \<noteq> 0"
        using traverseRec_0_children [of crit co d "\<lambda>k. off + int k" ms] by (simp add: comp_def)
      have cap: "\<not> cap < length rest + 8" and cap': "length ?ns + length rest + 7 * (d - 1) \<le> cap"
        using Suc.prems(2) d by auto
      have "traverseStack crit co cap (n # rest) found = traverseStack crit co cap (?ns @ rest) found"
        using c True off nz cap by (subst traverseStack_Cons) simp
      also have "\<dots> = traverseStack crit co cap rest (found @ ms)"
      proof (rule stack_nodes [OF _ kids cap'])
        fix n' and rest' :: "int list" and ms' found'
        assume "traverseRec crit co d n' = Some ms'" "length rest' + 7 * (d - 1) + 1 \<le> cap"
        then show "traverseStack crit co cap (n' # rest') found'
                   = traverseStack crit co cap rest' (found' @ ms')"
          by (rule Suc.IH)
      qed
      finally show ?thesis .
    qed
  qed
qed

lemma findCollisionsGpu_Cpu:
  "findCollisionsCpu h ovl depth np co hb lo hi = Some ms \<Longrightarrow> 7 * (depth - 1) + 1 \<le> cap \<Longrightarrow>
   findCollisionsGpu h ovl cap np co hb lo hi = Some ms"
  unfolding findCollisionsCpu_def findCollisionsGpu_def
  using stack_rec [of _ co depth 0 ms "[]" cap "[]"] by (simp add: traverseStack_Nil)

lemma threadCollisions_Gpu_Cpu:
  assumes "threadCollisions (h\<lparr>findCollisions := findCollisionsCpu h ovl depth\<rparr>)
             np co tio radii box fn ln i = Some ms"
    and "7 * (depth - 1) + 1 \<le> cap"
  shows "threadCollisions (h\<lparr>findCollisions := findCollisionsGpu h ovl cap\<rparr>)
             np co tio radii box fn ln i = Some ms"
  using assms
  by (auto simp: threadCollisions_def keyStart_def keyEnd_def Let_def findCollisionsGpu_Cpu
        split: Option.bind_splits if_splits)

lemma progOk_Some: "progOk tlo n p \<Longrightarrow> \<exists>ms. p = Some ms"
  by (cases p) (simp_all add: progOk_def)

lemma findHalosCpu_Some:
  assumes "findHalosCpu h np co tio tlo radii box fn ln flags = Some flags'"
  shows "\<forall>i \<in> {fn..ln - 1}. progOk tlo (length flags) (threadCollisions h np co tio radii box fn ln i)"
    and "flags' = flagAll flags (\<Union>i \<in> {fn..ln - 1}. progTargets tlo (threadCollisions h np co tio radii box fn ln i))"
  using assms unfolding findHalosCpu_progs forEach_runMarks
  by (auto split: if_splits)

lemma findHalosCpu_Gpu_traversal:
  assumes "findHalosCpu (h\<lparr>findCollisions := findCollisionsCpu h ovl depth\<rparr>)
             np co tio tlo radii box fn ln flags = Some flags'"
    and "7 * (depth - 1) + 1 \<le> cap"
  shows "findHalosCpu (h\<lparr>findCollisions := findCollisionsGpu h ovl cap\<rparr>)
             np co tio tlo radii box fn ln flags = Some flags'"
proof -
  have "map (threadCollisions (h\<lparr>findCollisions := findCollisionsGpu h ovl cap\<rparr>) np co tio radii box fn ln)
          [fn..ln - 1]
        = map (threadCollisions (h\<lparr>findCollisions := findCollisionsCpu h ovl depth\<rparr>) np co tio radii box fn ln)
          [fn..ln - 1]"
  proof (intro map_cong refl)
    fix i assume "i \<in> set [fn..ln - 1]"
    then have "i \<in> {fn..ln - 1}" by simp
    with findHalosCpu_Some(1) [OF assms(1)] obtain ms where
      "threadCollisions (h\<lparr>findCollisions := findCollisionsCpu h ovl depth\<rparr>) np co tio radii box fn ln i
        = Some ms"
      using progOk_Some by blast
    then show "threadCollisions (h\<lparr>findCollisions := findCollisionsGpu h ovl cap\<rparr>) np co tio radii box fn ln i
        = threadCollisions (h\<lparr>findCollisions := findCollisionsCpu h ovl depth\<rparr>) np co tio radii box fn ln i"
      using threadCollisions_Gpu_Cpu [OF _ assms(2)] by simp
  qed
  then show ?thesis
    using assms(1) unfolding findHalosCpu_progs by (simp only:)
qed

lemma launch_as_cpu:
  assumes "validRange fn ln" "iceilSpec h (ln - fn) 128" "schedule (iceil h (ln - fn) 128) 128 sched"
    and "7 * (depth - 1) + 1 \<le> capacity"
    and "findHalosCpu (h\<lparr>findCollisions := findCollisionsCpu h overlaps depth\<rparr>)
           np co tio tlo radii box fn ln flags = Some flags'"
  shows "findHalosGpu sched (h\<lparr>findCollisions := findCollisionsGpu h overlaps capacity\<rparr>)
           np co tio tlo radii box fn ln flags = Some flags'"
proof -
  let ?g = "h\<lparr>findCollisions := findCollisionsGpu h overlaps capacity\<rparr>"
  have "iceilSpec ?g (ln - fn) 128" "schedule (iceil ?g (ln - fn) 128) 128 sched"
    using assms(2,3) by (simp_all add: iceilSpec_def)
  from findHalosGpu_sequential [OF assms(1) this]
  show ?thesis
    using findHalosCpu_Gpu_traversal [OF assms(5,4)] by simp
qed

text \<open>
  C1: on the same linked octree, radii, local range and box, the GPU driver, under every
  schedule of its launch and with the explicit-stack traversal, returns the flag array that
  the CPU driver returns with the recursive traversal, whenever the CPU driver is defined and
  the stack has room for seven entries per level of the recursion and one more.
\<close>

theorem findHalosGpu_agrees_with_cpu:
  assumes "validRange firstNode lastNode"
    and "iceilSpec h (lastNode - firstNode) 128"
    and "schedule (iceil h (lastNode - firstNode) 128) 128 sched"
    and "7 * (depth - 1) + 1 \<le> capacity"
    and "findHalosCpu (h\<lparr>findCollisions := findCollisionsCpu h overlaps depth\<rparr>)
           nodePrefixes childOffsets toInternalOrder toLeafOrder interactionRadii box
           firstNode lastNode flags = Some flags'"
  shows "findHalosGpu sched (h\<lparr>findCollisions := findCollisionsGpu h overlaps capacity\<rparr>)
           nodePrefixes childOffsets toInternalOrder toLeafOrder interactionRadii box
           firstNode lastNode flags = Some flags'"
  using assms by (rule launch_as_cpu)

section \<open>Threads without a leaf, and the empty range\<close>

lemma kernel_idle:
  "\<not> leafIdxOf b d t fn < u32 ln \<Longrightarrow>
   findHalosKernel h np co tio tlo radii box fn ln b d t flags = Some flags"
  by (simp add: kernel_marks)

lemma kernel_outside:
  assumes "validRange fn ln" "iceilSpec h (ln - fn) 128"
    and "(b, t) \<in> set (grid (iceil h (ln - fn) 128) 128)"
    and "\<not> (fn \<le> int b * 128 + int t + fn \<and> int b * 128 + int t + fn < ln)"
  shows "findHalosKernel h np co tio tlo radii box fn ln b 128 t flags = Some flags"
  using assms grid_leafIdx [OF assms(1,2), of b t]
  by (intro kernel_idle) (simp add: grid_mem)

lemma empty_range:
  assumes "iceilSpec h 0 128" "schedule (iceil h 0 128) 128 sched"
  shows "findHalosGpu sched h np co tio tlo radii box fn fn flags = Some flags"
proof -
  have "iceil h 0 128 = 0"
    using assms(1) by (simp add: iceilSpec_def)
  then have "sched = []"
    using assms(2) by (simp add: schedule_def grid_def)
  then show ?thesis
    using assms(2) by (simp add: findHalosGpu_progs)
qed

text \<open>
  C10: a thread whose unsigned leaf index is not below \<open>lastNode\<close> returns the flag array as it
  got it; so does every thread that \<open>findHalosGpu\<close> launches with a leaf index outside
  \<open>[firstNode, lastNode)\<close>; and for an empty local range \<open>findHalosGpu\<close> leaves the flag array
  unchanged.
\<close>

theorem findHalosGpu_empty_range_no_writes:
  "(\<not> leafIdxOf blockIdx blockDim threadIdx firstNode < u32 lastNode \<longrightarrow>
      findHalosKernel h nodePrefixes childOffsets toInternalOrder toLeafOrder interactionRadii box
        firstNode lastNode blockIdx blockDim threadIdx flags = Some flags) \<and>
   (validRange firstNode lastNode \<and> iceilSpec h (lastNode - firstNode) 128 \<and>
      (b, t) \<in> set (grid (iceil h (lastNode - firstNode) 128) 128) \<and>
      \<not> (firstNode \<le> int b * 128 + int t + firstNode \<and> int b * 128 + int t + firstNode < lastNode) \<longrightarrow>
      findHalosKernel h nodePrefixes childOffsets toInternalOrder toLeafOrder interactionRadii box
        firstNode lastNode b 128 t flags = Some flags) \<and>
   (iceilSpec h 0 128 \<and> schedule (iceil h 0 128) 128 sched \<longrightarrow>
      findHalosGpu sched h nodePrefixes childOffsets toInternalOrder toLeafOrder interactionRadii box
        firstNode firstNode flags = Some flags)"
proof (intro conjI impI)
  assume "\<not> leafIdxOf blockIdx blockDim threadIdx firstNode < u32 lastNode"
  then show "findHalosKernel h nodePrefixes childOffsets toInternalOrder toLeafOrder interactionRadii
        box firstNode lastNode blockIdx blockDim threadIdx flags = Some flags"
    by (rule kernel_idle)
next
  assume "validRange firstNode lastNode \<and> iceilSpec h (lastNode - firstNode) 128 \<and>
      (b, t) \<in> set (grid (iceil h (lastNode - firstNode) 128) 128) \<and>
      \<not> (firstNode \<le> int b * 128 + int t + firstNode \<and> int b * 128 + int t + firstNode < lastNode)"
  then show "findHalosKernel h nodePrefixes childOffsets toInternalOrder toLeafOrder interactionRadii
        box firstNode lastNode b 128 t flags = Some flags"
    by (intro kernel_outside) simp_all
next
  assume "iceilSpec h 0 128 \<and> schedule (iceil h 0 128) 128 sched"
  then show "findHalosGpu sched h nodePrefixes childOffsets toInternalOrder toLeafOrder
        interactionRadii box firstNode firstNode flags = Some flags"
    by (intro empty_range) simp_all
qed

section \<open>The fast path\<close>

lemma rd_nth: "0 \<le> i \<Longrightarrow> i < int (length xs) \<Longrightarrow> rd xs i = Some (xs ! nat i)"
  by (simp add: rd_def)

lemma rd_SomeD: "rd xs i = Some v \<Longrightarrow> 0 \<le> i \<and> i < int (length xs) \<and> v = xs ! nat i"
  by (auto simp: rd_def split: if_splits)

lemma threadCollisions_readable:
  assumes "readable np tio radii i" "readableNode np tio fn" "readableNode np tio (ln - 1)"
  shows "threadCollisions h np co tio radii box fn ln i =
           (if containedIn h (lowestKeyOf h np tio fn) (highestKeyOf h np tio ln)
                 (haloBoxOf h np tio radii box i)
            then Some []
            else findCollisions h np co (haloBoxOf h np tio radii box i)
                   (lowestKeyOf h np tio fn) (highestKeyOf h np tio ln))"
  using assms
  by (simp add: threadCollisions_def readable_def readableNode_def rd_nth haloBoxOf_def
        lowestKeyOf_def highestKeyOf_def)

lemma readableRange_ends:
  assumes "readableRange np tio radii fn ln" "fn \<le> i" "i < ln"
  shows "readable np tio radii i" "readableNode np tio fn" "readableNode np tio (ln - 1)"
proof -
  have r: "readable np tio radii j" if "fn \<le> j" "j \<le> ln - 1" for j
    using assms(1) that by (simp add: readableRange_def)
  show "readable np tio radii i" using assms(2,3) by (intro r) simp_all
  have "readable np tio radii fn" using assms(2,3) by (intro r) simp_all
  then show "readableNode np tio fn" by (simp add: readable_def readableNode_def)
  have "readable np tio radii (ln - 1)" using assms(2,3) by (intro r) simp_all
  then show "readableNode np tio (ln - 1)" by (simp add: readable_def readableNode_def)
qed

lemma kernel_fast:
  assumes "leafIdxOf b d t fn = i" "readable np tio radii i" "readableNode np tio fn"
    "readableNode np tio (ln - 1)"
    "containedIn h (lowestKeyOf h np tio fn) (highestKeyOf h np tio ln) (haloBoxOf h np tio radii box i)"
  shows "findHalosKernel h np co tio tlo radii box fn ln b d t flags = Some flags"
  using assms by (simp add: kernel_marks threadCollisions_readable)

lemma pass_fast:
  assumes "validRange fn ln" "iceilSpec h (ln - fn) 128" "schedule (iceil h (ln - fn) 128) 128 sched"
    and "readableRange np tio radii fn ln"
    and "\<forall>i \<in> set [fn..ln - 1]. containedIn h (lowestKeyOf h np tio fn) (highestKeyOf h np tio ln)
           (haloBoxOf h np tio radii box i)"
  shows "findHalosGpu sched h np co tio tlo radii box fn ln flags = Some flags"
proof -
  have "threadCollisions h np co tio radii box fn ln i = Some []" if "i \<in> set [fn..ln - 1]" for i
    using that assms(5) readableRange_ends [OF assms(4), of i]
    by (simp add: threadCollisions_readable)
  then have "map (threadCollisions h np co tio radii box fn ln) [fn..ln - 1]
             = map (\<lambda>i. Some []) [fn..ln - 1]"
    by (intro map_cong refl)
  then have "findHalosCpu h np co tio tlo radii box fn ln flags = Some flags"
    unfolding findHalosCpu_progs forEach_runMarks
    by (auto simp: progOk_def marksOk_def progTargets_def targets_def flagAll_empty)
  then show ?thesis
    using findHalosGpu_sequential [OF assms(1,2,3)] by simp
qed

text \<open>
  C3: the thread of a leaf whose halo box is contained in the key span of the local range
  returns the flag array unchanged, whatever \<open>findCollisions\<close> would do; when this holds for
  every local leaf, the whole pass returns the flag array unchanged.
\<close>

theorem findHalos_fast_path:
  "(leafIdxOf blockIdx blockDim threadIdx firstNode = i \<and>
      readable nodePrefixes toInternalOrder interactionRadii i \<and>
      readableNode nodePrefixes toInternalOrder firstNode \<and>
      readableNode nodePrefixes toInternalOrder (lastNode - 1) \<and>
      containedIn h (lowestKeyOf h nodePrefixes toInternalOrder firstNode)
        (highestKeyOf h nodePrefixes toInternalOrder lastNode)
        (haloBoxOf h nodePrefixes toInternalOrder interactionRadii box i) \<longrightarrow>
      findHalosKernel h nodePrefixes childOffsets toInternalOrder toLeafOrder interactionRadii box
        firstNode lastNode blockIdx blockDim threadIdx flags = Some flags) \<and>
   (validRange firstNode lastNode \<and> iceilSpec h (lastNode - firstNode) 128 \<and>
      schedule (iceil h (lastNode - firstNode) 128) 128 sched \<and>
      readableRange nodePrefixes toInternalOrder interactionRadii firstNode lastNode \<and>
      (\<forall>j \<in> set [firstNode..lastNode - 1].
          containedIn h (lowestKeyOf h nodePrefixes toInternalOrder firstNode)
            (highestKeyOf h nodePrefixes toInternalOrder lastNode)
            (haloBoxOf h nodePrefixes toInternalOrder interactionRadii box j)) \<longrightarrow>
      findHalosGpu sched h nodePrefixes childOffsets toInternalOrder toLeafOrder interactionRadii box
        firstNode lastNode flags = Some flags)"
proof (intro conjI impI)
  assume "leafIdxOf blockIdx blockDim threadIdx firstNode = i \<and>
      readable nodePrefixes toInternalOrder interactionRadii i \<and>
      readableNode nodePrefixes toInternalOrder firstNode \<and>
      readableNode nodePrefixes toInternalOrder (lastNode - 1) \<and>
      containedIn h (lowestKeyOf h nodePrefixes toInternalOrder firstNode)
        (highestKeyOf h nodePrefixes toInternalOrder lastNode)
        (haloBoxOf h nodePrefixes toInternalOrder interactionRadii box i)"
  then show "findHalosKernel h nodePrefixes childOffsets toInternalOrder toLeafOrder interactionRadii
        box firstNode lastNode blockIdx blockDim threadIdx flags = Some flags"
    by (intro kernel_fast [where i = i]) simp_all
next
  assume "validRange firstNode lastNode \<and> iceilSpec h (lastNode - firstNode) 128 \<and>
      schedule (iceil h (lastNode - firstNode) 128) 128 sched \<and>
      readableRange nodePrefixes toInternalOrder interactionRadii firstNode lastNode \<and>
      (\<forall>j \<in> set [firstNode..lastNode - 1].
          containedIn h (lowestKeyOf h nodePrefixes toInternalOrder firstNode)
            (highestKeyOf h nodePrefixes toInternalOrder lastNode)
            (haloBoxOf h nodePrefixes toInternalOrder interactionRadii box j))"
  then show "findHalosGpu sched h nodePrefixes childOffsets toInternalOrder toLeafOrder
        interactionRadii box firstNode lastNode flags = Some flags"
    by (intro pass_fast) simp_all
qed

section \<open>Flags are set, never cleared\<close>

lemma findHalosGpu_flagAll:
  assumes "findHalosGpu sched h np co tio tlo radii box fn ln flags = Some flags'"
  shows "\<exists>T. flags' = flagAll flags T"
  using assms unfolding findHalosGpu_progs forEach_runMarks
  by (auto split: if_splits)

lemma markCollisions_twice:
  assumes "markCollisions tlo flags i = Some marked"
  shows "markCollisions tlo marked i = Some marked" "marked ! nat (tlo ! nat i) = 1"
    "length marked = length flags"
  using assms
  by (auto simp: markCollisions_def wr_def rd_def split: Option.bind_splits if_splits)

lemma markCollisions_commute:
  "Option.bind (markCollisions tlo flags i) (\<lambda>f. markCollisions tlo f j)
   = Option.bind (markCollisions tlo flags j) (\<lambda>f. markCollisions tlo f i)"
proof (cases "nat (tlo ! nat i) = nat (tlo ! nat j)")
  case True
  then show ?thesis
    by (auto simp: markCollisions_def wr_def rd_def split: Option.bind_splits if_splits)
next
  case False
  then show ?thesis
    by (auto simp: markCollisions_def wr_def rd_def list_update_swap
          split: Option.bind_splits if_splits)
qed

text \<open>
  C4: after a pass, the flag array has its length, every flag is what it was or is 1, and a
  flag that was not 0 is not 0. The callback writes the value 1; writing the same flag again
  changes nothing, and two writes give the same array in either order.
\<close>

theorem findHalosGpu_only_sets_flags:
  "(findHalosGpu sched h nodePrefixes childOffsets toInternalOrder toLeafOrder interactionRadii box
      firstNode lastNode flags = Some flags' \<longrightarrow>
      length flags' = length flags \<and>
      (\<forall>j \<in> set [0..<length flags].
         (flags' ! j = flags ! j \<or> flags' ! j = 1) \<and> (flags ! j \<noteq> 0 \<longrightarrow> flags' ! j \<noteq> 0))) \<and>
   (markCollisions toLeafOrder flags i = Some marked \<longrightarrow>
      marked ! nat (toLeafOrder ! nat i) = 1 \<and> markCollisions toLeafOrder marked i = Some marked) \<and>
   Option.bind (markCollisions toLeafOrder flags i) (\<lambda>f. markCollisions toLeafOrder f j)
     = Option.bind (markCollisions toLeafOrder flags j) (\<lambda>f. markCollisions toLeafOrder f i)"
proof (intro conjI impI)
  assume "findHalosGpu sched h nodePrefixes childOffsets toInternalOrder toLeafOrder interactionRadii
            box firstNode lastNode flags = Some flags'"
  from findHalosGpu_flagAll [OF this] obtain T where T: "flags' = flagAll flags T" ..
  show "length flags' = length flags" by (simp add: T)
  show "\<forall>j \<in> set [0..<length flags].
         (flags' ! j = flags ! j \<or> flags' ! j = 1) \<and> (flags ! j \<noteq> 0 \<longrightarrow> flags' ! j \<noteq> 0)"
    by (simp add: T nth_flagAll)
next
  assume m: "markCollisions toLeafOrder flags i = Some marked"
  show "marked ! nat (toLeafOrder ! nat i) = 1" by (rule markCollisions_twice(2) [OF m])
  show "markCollisions toLeafOrder marked i = Some marked" by (rule markCollisions_twice(1) [OF m])
next
  show "Option.bind (markCollisions toLeafOrder flags i) (\<lambda>f. markCollisions toLeafOrder f j)
     = Option.bind (markCollisions toLeafOrder flags j) (\<lambda>f. markCollisions toLeafOrder f i)"
    by (rule markCollisions_commute)
qed

section \<open>One leaf per thread\<close>

lemma one_thread:
  assumes "validRange fn ln" "iceilSpec h (ln - fn) 128" "fn \<le> i" "i < ln"
  shows "\<exists>!bt. bt \<in> set (grid (iceil h (ln - fn) 128) 128) \<and> leafIdxOf (fst bt) 128 (snd bt) fn = i"
proof (rule ex1I [of _ "(nat (i - fn) div 128, nat (i - fn) mod 128)"])
  note c = grid_covers [OF assms]
  have g: "(nat (i - fn) div 128, nat (i - fn) mod 128) \<in> set (grid (iceil h (ln - fn) 128) 128)"
    using c by (simp add: grid_mem)
  show "(nat (i - fn) div 128, nat (i - fn) mod 128) \<in> set (grid (iceil h (ln - fn) 128) 128) \<and>
        leafIdxOf (fst (nat (i - fn) div 128, nat (i - fn) mod 128)) 128
          (snd (nat (i - fn) div 128, nat (i - fn) mod 128)) fn = i"
    using g c grid_leafIdx(1) [OF assms(1,2) c(1,2)] by simp
next
  fix bt
  assume a: "bt \<in> set (grid (iceil h (ln - fn) 128) 128) \<and> leafIdxOf (fst bt) 128 (snd bt) fn = i"
  obtain b t where bt: "bt = (b, t)" by (cases bt)
  have bt': "b < iceil h (ln - fn) 128" "t < 128"
    using a by (simp_all add: bt grid_mem)
  have "int b * 128 + int t + fn = i"
    using a grid_leafIdx(1) [OF assms(1,2) bt'] by (simp add: bt)
  then have e: "nat (i - fn) = b * 128 + t" by linarith
  have "b = nat (i - fn) div 128" "t = nat (i - fn) mod 128"
    unfolding e using bt'(2) by simp_all
  then show "bt = (nat (i - fn) div 128, nat (i - fn) mod 128)" by (simp add: bt)
qed

lemma kernel_leaf:
  assumes "validRange fn ln" "iceilSpec h (ln - fn) 128" "fn \<le> i" "i < ln"
    and "readableRange np tio radii fn ln"
    and "(b, t) \<in> set (grid (iceil h (ln - fn) 128) 128)" "leafIdxOf b 128 t fn = i"
  shows "findHalosKernel h np co tio tlo radii box fn ln b 128 t flags =
           (if containedIn h (lowestKeyOf h np tio fn) (highestKeyOf h np tio ln)
                 (haloBoxOf h np tio radii box i)
            then Some flags
            else do {
              collisions \<leftarrow> findCollisions h np co (haloBoxOf h np tio radii box i)
                              (lowestKeyOf h np tio fn) (highestKeyOf h np tio ln);
              forEach (markCollisions tlo) collisions flags
            })"
proof -
  have "u32 ln = ln"
    using assms(1) by (simp add: validRange_def u32_def)
  then show ?thesis
    using assms(4,7) readableRange_ends [OF assms(5,3,4)]
    by (auto simp: kernel_marks threadCollisions_readable runMarks_def split: Option.bind_splits)
qed

text \<open>
  C5: every local leaf is the leaf of exactly one thread of the launch, and that thread tests
  the halo box of this leaf (the key range of the leaf's node, expanded by the leaf's radius)
  against the key span of the local range (from the start of leaf \<open>firstNode\<close> to the end of
  leaf \<open>lastNode - 1\<close>), and calls \<open>findCollisions\<close> with them when the test fails.
\<close>

theorem findHalosKernel_one_leaf_per_thread:
  assumes "validRange firstNode lastNode" and "iceilSpec h (lastNode - firstNode) 128"
    and "firstNode \<le> i" and "i < lastNode"
    and "readableRange nodePrefixes toInternalOrder interactionRadii firstNode lastNode"
  shows "(\<exists>!bt. bt \<in> set (grid (iceil h (lastNode - firstNode) 128) 128) \<and>
               leafIdxOf (fst bt) 128 (snd bt) firstNode = i) \<and>
         (\<forall>bt \<in> set (grid (iceil h (lastNode - firstNode) 128) 128).
            leafIdxOf (fst bt) 128 (snd bt) firstNode = i \<longrightarrow>
            findHalosKernel h nodePrefixes childOffsets toInternalOrder toLeafOrder interactionRadii
              box firstNode lastNode (fst bt) 128 (snd bt) flags =
              (if containedIn h (lowestKeyOf h nodePrefixes toInternalOrder firstNode)
                    (highestKeyOf h nodePrefixes toInternalOrder lastNode)
                    (haloBoxOf h nodePrefixes toInternalOrder interactionRadii box i)
               then Some flags
               else do {
                 collisions \<leftarrow> findCollisions h nodePrefixes childOffsets
                                 (haloBoxOf h nodePrefixes toInternalOrder interactionRadii box i)
                                 (lowestKeyOf h nodePrefixes toInternalOrder firstNode)
                                 (highestKeyOf h nodePrefixes toInternalOrder lastNode);
                 forEach (markCollisions toLeafOrder) collisions flags
               }))"
proof (intro conjI ballI impI)
  show "\<exists>!bt. bt \<in> set (grid (iceil h (lastNode - firstNode) 128) 128) \<and>
               leafIdxOf (fst bt) 128 (snd bt) firstNode = i"
    using assms(1-4) by (rule one_thread)
next
  fix bt
  assume "bt \<in> set (grid (iceil h (lastNode - firstNode) 128) 128)"
    and "leafIdxOf (fst bt) 128 (snd bt) firstNode = i"
  then show "findHalosKernel h nodePrefixes childOffsets toInternalOrder toLeafOrder interactionRadii
              box firstNode lastNode (fst bt) 128 (snd bt) flags =
              (if containedIn h (lowestKeyOf h nodePrefixes toInternalOrder firstNode)
                    (highestKeyOf h nodePrefixes toInternalOrder lastNode)
                    (haloBoxOf h nodePrefixes toInternalOrder interactionRadii box i)
               then Some flags
               else do {
                 collisions \<leftarrow> findCollisions h nodePrefixes childOffsets
                                 (haloBoxOf h nodePrefixes toInternalOrder interactionRadii box i)
                                 (lowestKeyOf h nodePrefixes toInternalOrder firstNode)
                                 (highestKeyOf h nodePrefixes toInternalOrder lastNode);
                 forEach (markCollisions toLeafOrder) collisions flags
               })"
    using kernel_leaf [OF assms, of "fst bt" "snd bt"] by simp
qed

section \<open>The traversal reaches every colliding leaf\<close>

lemma traverseRec_child:
  assumes "traverseRec crit co d m = Some ms" "crit m = Some True" "rd co m = Some off" "off \<noteq> 0"
    "octant < 8"
  shows "\<exists>d' a. traverseRec crit co d' (off + int octant) = Some a \<and> set a \<subseteq> set ms"
proof (cases d)
  case 0
  with assms(1) show ?thesis by simp
next
  case (Suc d')
  with assms have "concatOpt (map (\<lambda>k. traverseRec crit co d' (off + int k)) [0..<8]) = Some ms"
    by simp
  from concatOpt_map_mem [OF this, of octant] assms(5) show ?thesis by auto
qed

lemma traverseRec_leaf:
  assumes "traverseRec crit co d n = Some ms" "crit n = Some True" "rd co n = Some 0"
  shows "ms = [n]"
  using assms by (cases d) simp_all

lemma inheritsUpD:
  assumes "inheritsUp crit co" "m < length co" "k < 8" "co ! m \<noteq> 0"
    "crit (co ! m + int k) = Some True"
  shows "crit (int m) = Some True"
proof -
  have "\<forall>m \<in> set [0..<length co]. \<forall>octant \<in> set [0..<8].
        co ! m \<noteq> 0 \<and> crit (co ! m + int octant) = Some True \<longrightarrow> crit (int m) = Some True"
    using assms(1) unfolding inheritsUp_def .
  moreover have "m \<in> set [0..<length co]" using assms(2) by simp
  ultimately have "\<forall>octant \<in> set [0..<8].
        co ! m \<noteq> 0 \<and> crit (co ! m + int octant) = Some True \<longrightarrow> crit (int m) = Some True"
    by (rule bspec)
  moreover have "k \<in> set [0..<8]" using assms(3) by simp
  ultimately have "co ! m \<noteq> 0 \<and> crit (co ! m + int k) = Some True \<longrightarrow> crit (int m) = Some True"
    by (rule bspec)
  with assms(4,5) show ?thesis by simp
qed

lemma fastPathSoundD:
  "fastPathSound h overlaps np co hb lo hi \<Longrightarrow> containedIn h lo hi hb \<Longrightarrow> m < length co \<Longrightarrow>
   co ! m = 0 \<Longrightarrow> collides h overlaps np hb lo hi (int m) \<noteq> Some True"
  by (auto simp: fastPathSound_def)

lemma inheritsUp_parent:
  assumes "inheritsUp crit co" "rd co m = Some off" "off \<noteq> 0" "octant < 8"
    "crit (off + int octant) = Some True"
  shows "crit m = Some True"
proof -
  from rd_SomeD [OF assms(2)] have m: "0 \<le> m" "nat m < length co" "off = co ! nat m"
    by auto
  have "crit (int (nat m)) = Some True"
    using assms(3,5) m(3) by (intro inheritsUpD [OF assms(1) m(2) assms(4)]) simp_all
  then show ?thesis using m(1) by simp
qed

lemma reach_visited:
  assumes "reach co n" "inheritsUp crit co" "traverseRec crit co d 0 = Some ms"
  shows "crit n = Some True \<longrightarrow> (\<exists>d' a. traverseRec crit co d' n = Some a \<and> set a \<subseteq> set ms)"
  using assms(1)
proof (induction rule: reach.induct)
  case root
  show ?case using assms(3) by auto
next
  case (child m off octant)
  show ?case
  proof
    assume c: "crit (off + int octant) = Some True"
    have pm: "crit m = Some True"
      using inheritsUp_parent [OF assms(2) child.hyps(2,3,4) c] .
    with child.IH obtain d' a where a: "traverseRec crit co d' m = Some a" "set a \<subseteq> set ms"
      by blast
    from traverseRec_child [OF a(1) pm child.hyps(2,3,4)] a(2)
    show "\<exists>d' a. traverseRec crit co d' (off + int octant) = Some a \<and> set a \<subseteq> set ms"
      by (meson subset_trans)
  qed
qed

lemma traverseRec_complete:
  assumes "reach co n" "inheritsUp crit co" "traverseRec crit co d 0 = Some ms"
    "crit n = Some True" "rd co n = Some 0"
  shows "n \<in> set ms"
proof -
  from reach_visited [OF assms(1,2,3)] assms(4) obtain d' a where
    a: "traverseRec crit co d' n = Some a" "set a \<subseteq> set ms" by blast
  from traverseRec_leaf [OF a(1) assms(4,5)] a(2) show ?thesis by simp
qed

lemma flagged:
  assumes "findHalosCpu h np co tio tlo radii box fn ln flags = Some flags'"
    and "fn \<le> i" "i < ln" "threadCollisions h np co tio radii box fn ln i = Some ms" "n \<in> set ms"
  shows "\<exists>l. rd tlo n = Some l \<and> 0 \<le> l \<and> l < int (length flags') \<and> flags' ! nat l = 1"
proof -
  note s = findHalosCpu_Some [OF assms(1)]
  have i: "i \<in> {fn..ln - 1}" using assms(2,3) by simp
  from s(1) i have "progOk tlo (length flags) (threadCollisions h np co tio radii box fn ln i)" ..
  with assms(4) have "marksOk tlo (length flags) ms"
    by (simp add: progOk_def)
  with assms(5) obtain l where l: "rd tlo n = Some l" "0 \<le> l" "l < int (length flags)"
    by (auto simp: marksOk_def)
  have "l \<in> progTargets tlo (threadCollisions h np co tio radii box fn ln i)"
    using assms(4,5) l(1) by (auto simp: progTargets_def targets_def)
  with i have "l \<in> (\<Union>i \<in> {fn..ln - 1}. progTargets tlo (threadCollisions h np co tio radii box fn ln i))"
    by blast
  then have "flags' ! nat l = 1"
    using l(2,3) unfolding s(2) by (simp add: nth_flagAll)
  then show ?thesis using l s(2) by simp
qed

lemma threadCollisions_SomeD:
  assumes "threadCollisions h np co tio radii box fn ln i = Some ms"
  shows "readable np tio radii i" "readableNode np tio fn" "readableNode np tio (ln - 1)"
  using assms
  by (auto simp: threadCollisions_def readable_def readableNode_def
        split: Option.bind_splits dest!: rd_SomeD)

lemma no_false_negative:
  fixes h :: "('w::len word, 'r, 'b, 'ib) cstone"
    and overlaps :: "'w word \<Rightarrow> 'w word \<Rightarrow> 'ib \<Rightarrow> bool" and depth :: nat
  defines "c \<equiv> h\<lparr>findCollisions := findCollisionsCpu h overlaps depth\<rparr>"
  assumes cpu: "findHalosCpu c np co tio tlo radii box fn ln flags = Some flags'"
    and i: "fn \<le> i" "i < ln"
    and n: "reach co n" "rd co n = Some 0"
    and hit: "collides h overlaps np (haloBoxOf h np tio radii box i) (lowestKeyOf h np tio fn)
                (highestKeyOf h np tio ln) n = Some True"
    and up: "inheritsUp (collides h overlaps np (haloBoxOf h np tio radii box i)
                (lowestKeyOf h np tio fn) (highestKeyOf h np tio ln)) co"
    and fast: "fastPathSound h overlaps np co (haloBoxOf h np tio radii box i)
                (lowestKeyOf h np tio fn) (highestKeyOf h np tio ln)"
  shows "\<exists>l. rd tlo n = Some l \<and> 0 \<le> l \<and> l < int (length flags') \<and> flags' ! nat l = 1"
proof -
  let ?hb = "haloBoxOf h np tio radii box i" and ?lo = "lowestKeyOf h np tio fn"
    and ?hi = "highestKeyOf h np tio ln"
  have same: "haloBoxOf c np tio radii box i = ?hb" "lowestKeyOf c np tio fn = ?lo"
    "highestKeyOf c np tio ln = ?hi" "containedIn c = containedIn h"
    by (simp_all add: c_def haloBoxOf_def lowestKeyOf_def highestKeyOf_def keyStart_def keyEnd_def)
  have "i \<in> {fn..ln - 1}" using i by simp
  with findHalosCpu_Some(1) [OF cpu] obtain ms where
    ms: "threadCollisions c np co tio radii box fn ln i = Some ms"
    using progOk_Some by blast
  from rd_SomeD [OF n(2)] have n': "0 \<le> n" "nat n < length co" "co ! nat n = 0" by auto
  have "\<not> containedIn h ?lo ?hi ?hb"
  proof
    assume "containedIn h ?lo ?hi ?hb"
    from fastPathSoundD [OF fast this n'(2,3)]
    have "collides h overlaps np ?hb ?lo ?hi (int (nat n)) \<noteq> Some True" .
    with hit n'(1) show False by simp
  qed
  with ms threadCollisions_readable [OF threadCollisions_SomeD [OF ms], of c co box]
  have "findCollisionsCpu h overlaps depth np co ?hb ?lo ?hi = Some ms"
    by (simp add: same) (simp add: c_def)
  then have "traverseRec (collides h overlaps np ?hb ?lo ?hi) co depth 0 = Some ms"
    by (simp add: findCollisionsCpu_def)
  from traverseRec_complete [OF n(1) up this hit n(2)] have "n \<in> set ms" .
  from flagged [OF cpu i ms this] show ?thesis .
qed

section \<open>The invariants of the tree make the traversal and the fast path complete\<close>

lemma collides_withCells:
  "collides (withCells h cells) overlaps np hb lo hi = collides h overlaps np hb lo hi"
  by (rule ext) (simp add: collides_def withCells_def)

lemma nestedRangesD:
  assumes "nestedRanges h np co" "m < length co" "co ! m \<noteq> 0" "k < 8"
  shows "\<exists>child. rd np (co ! m + int k) = Some child \<and> keyStart h (np ! m) \<le> keyStart h child \<and>
           keyEnd h child \<le> keyEnd h (np ! m)"
proof -
  from assms(1) have "list_all (\<lambda>m. co ! m \<noteq> 0 \<longrightarrow>
        list_all (\<lambda>octant.
           case rd np (co ! m + int octant) of
             None \<Rightarrow> False
           | Some child \<Rightarrow> keyStart h (np ! m) \<le> keyStart h child \<and>
                          keyEnd h child \<le> keyEnd h (np ! m))
          [0..<8])
       [0..<length co]"
    by (simp add: nestedRanges_def)
  with assms(2,3) have "list_all (\<lambda>octant.
           case rd np (co ! m + int octant) of
             None \<Rightarrow> False
           | Some child \<Rightarrow> keyStart h (np ! m) \<le> keyStart h child \<and>
                          keyEnd h child \<le> keyEnd h (np ! m))
          [0..<8]"
    by (simp add: list_all_iff)
  with assms(4) have "case rd np (co ! m + int k) of
             None \<Rightarrow> False
           | Some child \<Rightarrow> keyStart h (np ! m) \<le> keyStart h child \<and>
                          keyEnd h child \<le> keyEnd h (np ! m)"
    by (simp add: list_all_iff)
  then show ?thesis by (cases "rd np (co ! m + int k)") simp_all
qed

lemma collides_SomeD:
  assumes "collides h overlaps np hb lo hi n = Some True"
  shows "\<exists>prefix. rd np n = Some prefix \<and> \<not> (lo \<le> keyStart h prefix \<and> keyEnd h prefix \<le> hi) \<and>
           overlaps (keyStart h prefix) (keyEnd h prefix) hb"
  using assms
  by (cases "rd np n") (simp_all add: collides_def keyStart_def keyEnd_def Let_def)

lemma collides_SomeI:
  assumes "rd np n = Some prefix" "\<not> (lo \<le> keyStart h prefix \<and> keyEnd h prefix \<le> hi)"
    "overlaps (keyStart h prefix) (keyEnd h prefix) hb"
  shows "collides h overlaps np hb lo hi n = Some True"
  using assms by (simp add: collides_def keyStart_def keyEnd_def Let_def)

lemma overlapsCells_mono:
  assumes "overlapsCells cells a b hb" "a' \<le> a" "b \<le> b'"
  shows "overlapsCells cells a' b' hb"
proof -
  from assms(1) obtain k where k: "k \<in> set (cells hb)" "a \<le> k" "k < b"
    by (auto simp: overlapsCells_def list_ex_iff)
  from k(2,3) assms(2,3) have "a' \<le> k" "k < b'" by simp_all
  with k(1) show ?thesis by (auto simp: overlapsCells_def list_ex_iff)
qed

lemma nested_inheritsUp:
  assumes "nestedRanges h np co"
  shows "inheritsUp (collides h (overlapsCells cells) np hb lo hi) co"
  unfolding inheritsUp_def
proof (intro ballI impI)
  fix m octant
  assume m: "m \<in> set [0..<length co]" and k: "octant \<in> set [0..<8]"
    and c: "co ! m \<noteq> 0 \<and>
            collides h (overlapsCells cells) np hb lo hi (co ! m + int octant) = Some True"
  from m k have m': "m < length co" and k': "octant < 8" by simp_all
  from nestedRangesD [OF assms m' _ k'] c obtain child where
    child: "rd np (co ! m + int octant) = Some child" "keyStart h (np ! m) \<le> keyStart h child"
      "keyEnd h child \<le> keyEnd h (np ! m)"
    by blast
  from collides_SomeD [of h "overlapsCells cells" np hb lo hi "co ! m + int octant"] c child(1)
  have out: "\<not> (lo \<le> keyStart h child \<and> keyEnd h child \<le> hi)"
    and ov: "overlapsCells cells (keyStart h child) (keyEnd h child) hb"
    by simp_all
  from assms m' have "rd np (int m) = Some (np ! m)"
    by (simp add: nestedRanges_def rd_nth)
  moreover from out child(2,3) have "\<not> (lo \<le> keyStart h (np ! m) \<and> keyEnd h (np ! m) \<le> hi)"
    by (meson order_trans)
  moreover from overlapsCells_mono [OF ov child(2,3)]
  have "overlapsCells cells (keyStart h (np ! m)) (keyEnd h (np ! m)) hb" .
  ultimately show "collides h (overlapsCells cells) np hb lo hi (int m) = Some True"
    by (rule collides_SomeI)
qed

lemma sortedLeavesD:
  assumes "sortedLeaves h np tio" "j < length tio"
  shows "leafStart h np tio j \<le> leafEnd h np tio j"
    and "Suc j < length tio \<Longrightarrow> leafEnd h np tio j \<le> leafStart h np tio (Suc j)"
  using assms by (simp_all add: sortedLeaves_def list_all_iff)

lemma leaves_chain:
  assumes "sortedLeaves h np tio"
  shows "b < length tio \<Longrightarrow> a \<le> b \<Longrightarrow>
         leafStart h np tio a \<le> leafStart h np tio b \<and> leafEnd h np tio a \<le> leafEnd h np tio b \<and>
         (a < b \<longrightarrow> leafEnd h np tio a \<le> leafStart h np tio b)"
proof (induction b)
  case 0
  then show ?case by simp
next
  case (Suc b)
  show ?case
  proof (cases "a = Suc b")
    case True
    then show ?thesis by simp
  next
    case False
    with Suc.prems have ab: "b < length tio" "a \<le> b" by simp_all
    from Suc.IH [OF ab] have ih: "leafStart h np tio a \<le> leafStart h np tio b"
      "leafEnd h np tio a \<le> leafEnd h np tio b" by simp_all
    from sortedLeavesD [OF assms ab(1)] Suc.prems(1)
    have b: "leafStart h np tio b \<le> leafEnd h np tio b"
      "leafEnd h np tio b \<le> leafStart h np tio (Suc b)" by simp_all
    from sortedLeavesD(1) [OF assms Suc.prems(1)]
    have s: "leafStart h np tio (Suc b) \<le> leafEnd h np tio (Suc b)" .
    have 1: "leafEnd h np tio a \<le> leafStart h np tio (Suc b)"
      using ih(2) b(2) by (rule order_trans)
    have 2: "leafStart h np tio a \<le> leafStart h np tio (Suc b)"
      using ih(1) b(1) b(2) by (meson order_trans)
    have 3: "leafEnd h np tio a \<le> leafEnd h np tio (Suc b)"
      using 1 s by (rule order_trans)
    from 1 2 3 show ?thesis by simp
  qed
qed

lemma span_leaves:
  assumes "0 \<le> fn"
  shows "lowestKeyOf h np tio fn = leafStart h np tio (nat fn)"
    and "highestKeyOf h np tio ln = leafEnd h np tio (nat (ln - 1))"
  by (simp_all add: lowestKeyOf_def highestKeyOf_def leafStart_def leafEnd_def)

lemma leaves_aligned:
  assumes s: "sortedLeaves h np tio" and j: "j < length tio"
    and r: "0 \<le> fn" "fn < ln" "ln \<le> int (length tio)"
  shows "(lowestKeyOf h np tio fn \<le> leafStart h np tio j \<and>
          leafEnd h np tio j \<le> highestKeyOf h np tio ln) \<or>
         leafEnd h np tio j \<le> lowestKeyOf h np tio fn \<or>
         highestKeyOf h np tio ln \<le> leafStart h np tio j"
proof -
  let ?f = "nat fn" and ?l = "nat (ln - 1)"
  from r have fl: "?f \<le> ?l" "?l < length tio" by simp_all
  consider "j < ?f" | "?l < j" | "?f \<le> j" "j \<le> ?l" by linarith
  then show ?thesis
  proof cases
    case 1
    with fl have "?f < length tio" "j \<le> ?f" by simp_all
    from leaves_chain [OF s this] 1 have "leafEnd h np tio j \<le> leafStart h np tio ?f" by simp
    then show ?thesis by (simp add: span_leaves [OF r(1)])
  next
    case 2
    then have "?l \<le> j" by simp
    from leaves_chain [OF s j this] 2 have "leafEnd h np tio ?l \<le> leafStart h np tio j" by simp
    then show ?thesis by (simp add: span_leaves [OF r(1)])
  next
    case 3
    from leaves_chain [OF s j 3(1)] have "leafStart h np tio ?f \<le> leafStart h np tio j" by simp
    moreover from leaves_chain [OF s fl(2) 3(2)] have "leafEnd h np tio j \<le> leafEnd h np tio ?l"
      by simp
    ultimately show ?thesis by (simp add: span_leaves [OF r(1)])
  qed
qed

lemma pairedTablesD:
  assumes "pairedTables co tio tlo" "n < length co" "co ! n = 0"
  shows "\<exists>j. j < length tio \<and> tio ! j = int n"
proof -
  from assms have "case rd tlo (int n) of None \<Rightarrow> False | Some l \<Rightarrow> rd tio l = Some (int n)"
    by (simp add: pairedTables_def list_all_iff)
  then obtain l where "rd tio l = Some (int n)"
    by (cases "rd tlo (int n)") simp_all
  from rd_SomeD [OF this] have "nat l < length tio" "tio ! nat l = int n" by auto
  then show ?thesis by blast
qed

lemma aligned_fastPathSound:
  assumes s: "sortedLeaves h np tio" and p: "pairedTables co tio tlo"
    and r: "0 \<le> fn" "fn < ln" "ln \<le> int (length tio)"
  shows "fastPathSound (withCells h cells) (overlapsCells cells) np co hb
           (lowestKeyOf h np tio fn) (highestKeyOf h np tio ln)"
  unfolding fastPathSound_def
proof (intro impI ballI)
  fix n
  let ?lo = "lowestKeyOf h np tio fn" and ?hi = "highestKeyOf h np tio ln"
  assume "containedIn (withCells h cells) ?lo ?hi hb"
  then have inside: "\<And>k. k \<in> set (cells hb) \<Longrightarrow> ?lo \<le> k \<and> k < ?hi"
    by (simp add: withCells_def containedInCells_def list_all_iff)
  assume "n \<in> set [0..<length co]" and leaf: "co ! n = 0"
  then have n: "n < length co" by simp
  show "collides (withCells h cells) (overlapsCells cells) np hb ?lo ?hi (int n) \<noteq> Some True"
  proof
    assume "collides (withCells h cells) (overlapsCells cells) np hb ?lo ?hi (int n) = Some True"
    then have "collides h (overlapsCells cells) np hb ?lo ?hi (int n) = Some True"
      by (simp add: collides_withCells)
    from collides_SomeD [OF this] obtain prefix where
      prefix: "rd np (int n) = Some prefix"
        "\<not> (?lo \<le> keyStart h prefix \<and> keyEnd h prefix \<le> ?hi)"
        "overlapsCells cells (keyStart h prefix) (keyEnd h prefix) hb"
      by blast
    from rd_SomeD [OF prefix(1)] have np: "prefix = np ! n" by simp
    from pairedTablesD [OF p n leaf] obtain j where j: "j < length tio" "tio ! j = int n"
      by blast
    then have keys: "leafStart h np tio j = keyStart h prefix" "leafEnd h np tio j = keyEnd h prefix"
      by (simp_all add: leafStart_def leafEnd_def np)
    from prefix(3) obtain k where k: "k \<in> set (cells hb)" "keyStart h prefix \<le> k"
      "k < keyEnd h prefix"
      by (auto simp: overlapsCells_def list_ex_iff)
    from inside [OF k(1)] have span: "?lo \<le> k" "k < ?hi" by simp_all
    from leaves_aligned [OF s j(1) r, unfolded keys] prefix(2)
    have "keyEnd h prefix \<le> ?lo \<or> ?hi \<le> keyStart h prefix" by blast
    then show False
    proof
      assume "keyEnd h prefix \<le> ?lo"
      with k(3) span(1) show False by simp
    next
      assume "?hi \<le> keyStart h prefix"
      with k(2) span(2) show False by simp
    qed
  qed
qed

text \<open>
  C2: in a linked octree whose node prefixes are nested, whose leaves are sorted and whose
  permutation tables are paired, let a leaf lie outside the key span of the local range and
  let its box overlap the halo box of a local leaf. Then the fast path is not taken for that
  local leaf, and when the CPU driver is defined the flag of the leaf is 1 after the pass, on
  the CPU and on the GPU under every schedule.
\<close>

theorem findHalos_no_false_negatives:
  fixes h :: "('w::len word, 'r, 'b, 'ib) cstone" and cells :: "'ib \<Rightarrow> 'w word list"
  assumes "validRange firstNode lastNode"
    and "iceilSpec h (lastNode - firstNode) 128"
    and "schedule (iceil h (lastNode - firstNode) 128) 128 sched"
    and "7 * (depth - 1) + 1 \<le> capacity"
    and "findHalosCpu
           ((withCells h cells)\<lparr>findCollisions :=
              findCollisionsCpu (withCells h cells) (overlapsCells cells) depth\<rparr>)
           nodePrefixes childOffsets toInternalOrder toLeafOrder interactionRadii box
           firstNode lastNode flags = Some flags'"
    and "nestedRanges h nodePrefixes childOffsets"
    and "sortedLeaves h nodePrefixes toInternalOrder"
    and "pairedTables childOffsets toInternalOrder toLeafOrder"
    and "firstNode \<le> i" and "i < lastNode"
    and "reach childOffsets n" and "rd childOffsets n = Some 0"
    and "\<not> (lowestKeyOf h nodePrefixes toInternalOrder firstNode \<le> keyStart h (nodePrefixes ! nat n) \<and>
            keyEnd h (nodePrefixes ! nat n) \<le> highestKeyOf h nodePrefixes toInternalOrder lastNode)"
    and "overlapsCells cells (keyStart h (nodePrefixes ! nat n)) (keyEnd h (nodePrefixes ! nat n))
           (haloBoxOf h nodePrefixes toInternalOrder interactionRadii box i)"
  shows "\<not> containedInCells cells (lowestKeyOf h nodePrefixes toInternalOrder firstNode)
             (highestKeyOf h nodePrefixes toInternalOrder lastNode)
             (haloBoxOf h nodePrefixes toInternalOrder interactionRadii box i) \<and>
         findHalosGpu sched
           ((withCells h cells)\<lparr>findCollisions :=
              findCollisionsGpu (withCells h cells) (overlapsCells cells) capacity\<rparr>)
           nodePrefixes childOffsets toInternalOrder toLeafOrder interactionRadii box
           firstNode lastNode flags = Some flags' \<and>
         (\<exists>l. rd toLeafOrder n = Some l \<and> 0 \<le> l \<and> l < int (length flags') \<and> flags' ! nat l = 1)"
proof -
  let ?g = "withCells h cells"
  let ?hb = "haloBoxOf h nodePrefixes toInternalOrder interactionRadii box i"
    and ?lo = "lowestKeyOf h nodePrefixes toInternalOrder firstNode"
    and ?hi = "highestKeyOf h nodePrefixes toInternalOrder lastNode"
  have same: "haloBoxOf ?g nodePrefixes toInternalOrder interactionRadii box i = ?hb"
    "lowestKeyOf ?g nodePrefixes toInternalOrder firstNode = ?lo"
    "highestKeyOf ?g nodePrefixes toInternalOrder lastNode = ?hi"
    by (simp_all add: withCells_def haloBoxOf_def lowestKeyOf_def highestKeyOf_def keyStart_def
          keyEnd_def)
  have launch: "iceilSpec ?g (lastNode - firstNode) 128"
    "schedule (iceil ?g (lastNode - firstNode) 128) 128 sched"
    using assms(2,3) by (simp_all add: withCells_def iceilSpec_def)
  have "i \<in> {firstNode..lastNode - 1}" using assms(9,10) by simp
  with findHalosCpu_Some(1) [OF assms(5)] obtain ms where
    "threadCollisions
       (?g\<lparr>findCollisions := findCollisionsCpu ?g (overlapsCells cells) depth\<rparr>)
       nodePrefixes childOffsets toInternalOrder interactionRadii box firstNode lastNode i = Some ms"
    using progOk_Some by blast
  from threadCollisions_SomeD(3) [OF this]
  have range: "0 \<le> firstNode" "firstNode < lastNode" "lastNode \<le> int (length toInternalOrder)"
    using assms(1,9,10) by (simp_all add: validRange_def readableNode_def)
  from rd_SomeD [OF assms(12)] have n: "0 \<le> n" "nat n < length childOffsets" by auto
  with assms(6) have prefix: "rd nodePrefixes n = Some (nodePrefixes ! nat n)"
    by (simp add: nestedRanges_def rd_nth)
  have hit: "collides ?g (overlapsCells cells) nodePrefixes
               (haloBoxOf ?g nodePrefixes toInternalOrder interactionRadii box i)
               (lowestKeyOf ?g nodePrefixes toInternalOrder firstNode)
               (highestKeyOf ?g nodePrefixes toInternalOrder lastNode) n = Some True"
    unfolding same collides_withCells using prefix assms(13,14) by (rule collides_SomeI)
  have up: "inheritsUp (collides ?g (overlapsCells cells) nodePrefixes
               (haloBoxOf ?g nodePrefixes toInternalOrder interactionRadii box i)
               (lowestKeyOf ?g nodePrefixes toInternalOrder firstNode)
               (highestKeyOf ?g nodePrefixes toInternalOrder lastNode)) childOffsets"
    unfolding same collides_withCells using assms(6) by (rule nested_inheritsUp)
  have fast: "fastPathSound ?g (overlapsCells cells) nodePrefixes childOffsets
               (haloBoxOf ?g nodePrefixes toInternalOrder interactionRadii box i)
               (lowestKeyOf ?g nodePrefixes toInternalOrder firstNode)
               (highestKeyOf ?g nodePrefixes toInternalOrder lastNode)"
    unfolding same using assms(7,8) range by (rule aligned_fastPathSound)
  have "\<not> containedInCells cells ?lo ?hi ?hb"
  proof
    assume "containedInCells cells ?lo ?hi ?hb"
    then have "containedIn ?g ?lo ?hi ?hb" by (simp add: withCells_def)
    from fastPathSoundD [OF fast [unfolded same] this n(2)] rd_SomeD [OF assms(12)]
      hit [unfolded same] n(1)
    show False by simp
  qed
  moreover note launch_as_cpu [OF assms(1) launch assms(4,5)]
    no_false_negative [OF assms(5,9,10,11,12) hit up fast]
  ultimately show ?thesis by simp
qed
section \<open>Neighbor counts and neighbor slots\<close>

lemma those_map_Some:
  "those (map f xs) = Some ys \<Longrightarrow> length ys = length xs \<and> (\<forall>k < length xs. f (xs ! k) = Some (ys ! k))"
proof (induction xs arbitrary: ys)
  case Nil
  then show ?case by simp
next
  case (Cons x xs)
  from Cons.prems obtain y ys' where y: "f x = Some y" "those (map f xs) = Some ys'" "ys = y # ys'"
    by (auto split: option.splits)
  from Cons.IH [OF y(2)] y(1,3) show ?case
    by (auto simp: nth_Cons split: nat.splits)
qed

lemma those_map_mem:
  "those (map f xs) = Some ys \<Longrightarrow> y \<in> set ys \<Longrightarrow> \<exists>x \<in> set xs. f x = Some y"
  by (metis in_set_conv_nth those_map_Some)

lemma rho0_call:
  assumes "computeRho0Impl startIndex endIndex ngmax neighborsCount = Some calls"
    and "startIndex \<le> i" "i < endIndex"
  shows "i < length neighborsCount"
    and "calls ! (i - startIndex) =
           \<lparr> particle = i, neighborsAt = ngmax * (i - startIndex), passedCount = neighborsCount ! i \<rparr>"
proof -
  have k: "i - startIndex < length [startIndex..<endIndex]" "[startIndex..<endIndex] ! (i - startIndex) = i"
    using assms(2,3) by simp_all
  from those_map_Some [OF assms(1) [unfolded computeRho0Impl_def]] k
  have c: "rho0Call startIndex ngmax neighborsCount i = Some (calls ! (i - startIndex))"
    by metis
  then show "i < length neighborsCount"
    by (auto simp: rho0Call_def rd_def split: Option.bind_splits if_splits)
  from c show "calls ! (i - startIndex) =
           \<lparr> particle = i, neighborsAt = ngmax * (i - startIndex), passedCount = neighborsCount ! i \<rparr>"
    by (auto simp: rho0Call_def rd_def split: Option.bind_splits if_splits)
qed

lemma rho0_beyond:
  assumes "computeRho0Impl startIndex endIndex ngmax neighborsCount = Some calls"
    and "startIndex \<le> i" "i < endIndex" "int ngmax < neighborsCount ! i"
  shows "ngmax * (i - startIndex) + ngmax \<in> set (jLoopReads (calls ! (i - startIndex)))"
    and "\<not> inSlot ngmax (i - startIndex) (ngmax * (i - startIndex) + ngmax)"
proof -
  have "ngmax < nat (neighborsCount ! i)" using assms(4) by linarith
  then show "ngmax * (i - startIndex) + ngmax \<in> set (jLoopReads (calls ! (i - startIndex)))"
    unfolding rho0_call(2) [OF assms(1,2,3)] by (simp add: jLoopReads_def)
  show "\<not> inSlot ngmax (i - startIndex) (ngmax * (i - startIndex) + ngmax)"
    by (simp add: inSlot_def)
qed

lemma momentum_call:
  assumes "computeMomentumEnergyImpl startIndex endIndex ngmax neighborsCount = Some calls"
    and "c \<in> set calls"
  shows "startIndex \<le> particle c \<and> particle c < endIndex \<and>
         neighborsAt c = nat ngmax * (particle c - startIndex) \<and>
         passedCount c = min (neighborsCount ! particle c) ngmax"
proof -
  from those_map_mem [OF assms(1) [unfolded computeMomentumEnergyImpl_def] assms(2)]
  obtain i where i: "startIndex \<le> i" "i < endIndex"
    and c: "momentumEnergyCall startIndex ngmax neighborsCount i = Some c"
    by auto
  from c have "c = \<lparr> particle = i, neighborsAt = nat ngmax * (i - startIndex),
                     passedCount = min (neighborsCount ! i) ngmax \<rparr>"
    by (auto simp: momentumEnergyCall_def rd_def Let_def split: Option.bind_splits if_splits)
  with i show ?thesis by simp
qed

lemma momentum_within:
  assumes "computeMomentumEnergyImpl startIndex endIndex (int ngmax) neighborsCount = Some calls"
    and "c \<in> set calls" "k \<in> set (jLoopReads c)"
  shows "inSlot ngmax (particle c - startIndex) k"
proof -
  note m = momentum_call [OF assms(1,2)]
  have "nat (passedCount c) \<le> ngmax" using m by simp
  then show ?thesis
    using assms(3) m by (auto simp: jLoopReads_def inSlot_def)
qed

text \<open>
  C9: when \<open>neighborsCount[i]\<close> exceeds \<open>ngmax\<close>, the call of \<open>computeRho0Impl\<close> for particle
  \<open>i\<close> passes the count as it is, with the pointer at \<open>ngmax * ni\<close>, and a j-loop that reads
  as many entries as it is told reads the entry at \<open>ngmax * ni + ngmax\<close>, which is outside the
  slot of the particle; every call of \<open>computeMomentumEnergyImpl\<close> passes the minimum of the
  count and \<open>ngmax\<close>, and all its reads are inside the slot.
\<close>

theorem computeRho0Impl_reads_beyond_slot:
  assumes "computeRho0Impl startIndex endIndex ngmax neighborsCount = Some calls"
    and "computeMomentumEnergyImpl startIndex endIndex (int ngmax) neighborsCount = Some calls'"
    and "startIndex \<le> i" and "i < endIndex" and "int ngmax < neighborsCount ! i"
  shows "calls ! (i - startIndex) =
           \<lparr> particle = i, neighborsAt = ngmax * (i - startIndex), passedCount = neighborsCount ! i \<rparr> \<and>
         ngmax * (i - startIndex) + ngmax \<in> set (jLoopReads (calls ! (i - startIndex))) \<and>
         \<not> inSlot ngmax (i - startIndex) (ngmax * (i - startIndex) + ngmax) \<and>
         (\<forall>c \<in> set calls'.
            passedCount c = min (neighborsCount ! particle c) (int ngmax) \<and>
            (\<forall>k \<in> set (jLoopReads c). inSlot ngmax (particle c - startIndex) k))"
  using rho0_call(2) [OF assms(1,3,4)] rho0_beyond [OF assms(1,3,4,5)]
    momentum_call [OF assms(2)] momentum_within [OF assms(2)]
  by blast

section \<open>The neighbor search fills a list of ngmax entries and counts on\<close>

lemma findNeighborsLoop_eq:
  "length neighbors = min numNeighbors ngmax \<Longrightarrow>
   findNeighborsLoop ngmax within js (neighbors, numNeighbors) =
     (neighbors @ take (ngmax - numNeighbors) (filter within js),
      numNeighbors + length (filter within js))"
proof (induction js arbitrary: neighbors numNeighbors)
  case Nil
  then show ?case by simp
next
  case (Cons j js)
  show ?case
  proof (cases "within j")
    case False
    with Cons show ?thesis by simp
  next
    case True
    show ?thesis
    proof (cases "numNeighbors < ngmax")
      case lt: True
      then have "length (neighbors @ [j]) = min (numNeighbors + 1) ngmax"
        using Cons.prems by simp
      from Cons.IH [OF this] True lt show ?thesis
        by (simp add: take_Cons' Suc_diff_Suc)
    next
      case ge: False
      then have "length neighbors = min (numNeighbors + 1) ngmax"
        using Cons.prems by simp
      from Cons.IH [OF this] True ge show ?thesis
        by simp
    qed
  qed
qed

lemma findNeighbors_eq:
  "findNeighbors ngmax within candidates =
     (take ngmax (filter within candidates), length (filter within candidates))"
  using findNeighborsLoop_eq [of "[]" 0 ngmax within candidates]
  by (simp add: findNeighbors_def)

text \<open>
  C6: the neighbor search returns the first \<open>ngmax\<close> neighbors and the number of all neighbors;
  when that number exceeds \<open>ngmax\<close> the list has \<open>ngmax\<close> entries and the count is larger; the
  count clamped to \<open>ngmax\<close>, which is what \<open>computeMomentumEnergyImpl\<close> passes on, is the
  length of the list.
\<close>

theorem findNeighbors_truncates_and_counts:
  assumes "findNeighbors ngmax within candidates = (neighbors, numNeighbors)"
    and "computeMomentumEnergyImpl startIndex endIndex (int ngmax) neighborsCount = Some calls"
    and "c \<in> set calls" and "neighborsCount ! particle c = int numNeighbors"
  shows "numNeighbors = length (filter within candidates) \<and>
         neighbors = take ngmax (filter within candidates) \<and>
         (ngmax < numNeighbors \<longrightarrow> length neighbors = ngmax \<and> length neighbors < numNeighbors) \<and>
         nat (passedCount c) = length neighbors \<and> passedCount c = int (min numNeighbors ngmax)"
proof -
  from assms(1) have n: "numNeighbors = length (filter within candidates)"
    "neighbors = take ngmax (filter within candidates)"
    by (simp_all add: findNeighbors_eq)
  from momentum_call [OF assms(2,3)] assms(4)
  have "passedCount c = min (int numNeighbors) (int ngmax)" by simp
  then show ?thesis using n by auto
qed

theorem computeRho0Impl_reads_beyond_slot_witness:
  "computeRho0Impl 2 4 3 [0, 0, 5, 2] =
     Some [\<lparr>particle = 2, neighborsAt = 0, passedCount = 5\<rparr>,
           \<lparr>particle = 3, neighborsAt = 3, passedCount = 2\<rparr>] \<and>
   computeMomentumEnergyImpl 2 4 (int 3) [0, 0, 5, 2] =
     Some [\<lparr>particle = 2, neighborsAt = 0, passedCount = 3\<rparr>,
           \<lparr>particle = 3, neighborsAt = 3, passedCount = 2\<rparr>] \<and>
   (2 :: nat) \<le> 2 \<and> (2 :: nat) < 4 \<and> int 3 < [0, 0, 5, 2] ! 2 \<and>
   3 * (2 - 2) + 3 \<in> set (jLoopReads \<lparr>particle = 2, neighborsAt = 0, passedCount = 5\<rparr>) \<and>
   \<not> inSlot 3 (2 - 2) (3 * (2 - 2) + 3) \<and>
   list_all (\<lambda>k. inSlot 3 (2 - 2) k) (jLoopReads \<lparr>particle = 2, neighborsAt = 0, passedCount = 3\<rparr>)"
proof -
  have r: "computeRho0Impl 2 4 3 [0, 0, 5, 2] =
     Some [\<lparr>particle = 2, neighborsAt = 0, passedCount = 5\<rparr>,
           \<lparr>particle = 3, neighborsAt = 3, passedCount = 2\<rparr>]"
    by (simp add: computeRho0Impl_def rho0Call_def rd_def upt_rec)
  have m: "computeMomentumEnergyImpl 2 4 (int 3) [0, 0, 5, 2] =
     Some [\<lparr>particle = 2, neighborsAt = 0, passedCount = 3\<rparr>,
           \<lparr>particle = 3, neighborsAt = 3, passedCount = 2\<rparr>]"
    by (simp add: computeMomentumEnergyImpl_def momentumEnergyCall_def rd_def upt_rec)
  have i: "(2 :: nat) \<le> 2" "(2 :: nat) < 4" "int 3 < [0, 0, 5, 2] ! 2" by simp_all
  from computeRho0Impl_reads_beyond_slot [OF r m i]
  have "3 * (2 - 2) + 3 \<in> set (jLoopReads \<lparr>particle = 2, neighborsAt = 0, passedCount = 5\<rparr>)"
    and "\<not> inSlot 3 (2 - 2) (3 * (2 - 2) + 3)"
    and "list_all (\<lambda>k. inSlot 3 (2 - 2) k) (jLoopReads \<lparr>particle = 2, neighborsAt = 0, passedCount = 3\<rparr>)"
    by (simp_all add: list_all_iff)
  with r m i show ?thesis by (intro conjI)
qed

theorem findNeighbors_truncates_and_counts_witness:
  "findNeighbors 3 (\<lambda>j. j \<noteq> 4) [0, 1, 2, 3, 4, 5] = ([0, 1, 2], 5) \<and>
   computeMomentumEnergyImpl 2 4 (int 3) [0, 0, 5, 2] =
     Some [\<lparr>particle = 2, neighborsAt = 0, passedCount = 3\<rparr>,
           \<lparr>particle = 3, neighborsAt = 3, passedCount = 2\<rparr>] \<and>
   [0, 0, 5, 2] ! particle \<lparr>particle = 2, neighborsAt = 0, passedCount = 3\<rparr> = int 5 \<and>
   (5 :: nat) = length (filter (\<lambda>j. j \<noteq> 4) [0, 1, 2, 3, 4, 5 :: nat]) \<and>
   [0, 1, 2] = take 3 (filter (\<lambda>j. j \<noteq> 4) [0, 1, 2, 3, 4, 5 :: nat]) \<and>
   (3 :: nat) < 5 \<and> length [0, 1, 2 :: nat] = 3 \<and> length [0, 1, 2 :: nat] < 5 \<and>
   nat (passedCount \<lparr>particle = 2, neighborsAt = 0, passedCount = 3\<rparr>) = length [0, 1, 2 :: nat]"
proof -
  have f: "findNeighbors 3 (\<lambda>j. j \<noteq> 4) [0, 1, 2, 3, 4, 5] = ([0, 1, 2], 5)"
    by (simp add: findNeighbors_def)
  have m: "computeMomentumEnergyImpl 2 4 (int 3) [0, 0, 5, 2] =
     Some [\<lparr>particle = 2, neighborsAt = 0, passedCount = 3\<rparr>,
           \<lparr>particle = 3, neighborsAt = 3, passedCount = 2\<rparr>]"
    by (simp add: computeMomentumEnergyImpl_def momentumEnergyCall_def rd_def upt_rec)
  have c: "\<lparr>particle = 2, neighborsAt = 0, passedCount = 3\<rparr>
      \<in> set [\<lparr>particle = 2, neighborsAt = 0, passedCount = 3\<rparr>,
             \<lparr>particle = 3, neighborsAt = 3, passedCount = 2\<rparr>]"
    by simp
  have n: "[0, 0, 5, 2] ! particle \<lparr>particle = 2, neighborsAt = 0, passedCount = 3\<rparr> = int 5"
    by simp
  from findNeighbors_truncates_and_counts [OF f m c n] f m n
  show ?thesis by simp
qed

section \<open>Decoding an encoded point\<close>

lemma interleave_bound: "interleave level ix iy iz < 8 ^ level"
proof (induction level arbitrary: ix iy iz)
  case 0
  then show ?case by simp
next
  case (Suc level)
  have "interleave level (ix div 2) (iy div 2) (iz div 2) + 1 \<le> 8 ^ level"
    using Suc [of "ix div 2" "iy div 2" "iz div 2"] by simp
  then have "8 * interleave level (ix div 2) (iy div 2) (iz div 2) + 8 \<le> 8 * 8 ^ level"
    by simp
  moreover have "4 * (ix mod 2) + 2 * (iy mod 2) + iz mod 2 < 8"
    by presburger
  ultimately show ?case by simp
qed

lemma octal_digit:
  fixes a b c q :: nat
  assumes "a < 2" "b < 2" "c < 2"
  shows "(8 * q + (4 * a + 2 * b + c)) div 8 = q"
    and "(8 * q + (4 * a + 2 * b + c)) mod 8 div 4 = a"
    and "(8 * q + (4 * a + 2 * b + c)) mod 8 div 2 mod 2 = b"
    and "(8 * q + (4 * a + 2 * b + c)) mod 2 = c"
proof -
  have abc: "a = 0 \<or> a = 1" "b = 0 \<or> b = 1" "c = 0 \<or> c = 1"
    using assms by auto
  have d: "4 * a + 2 * b + c < 8" using assms by simp
  then show "(8 * q + (4 * a + 2 * b + c)) div 8 = q" by simp
  have m: "(8 * q + (4 * a + 2 * b + c)) mod 8 = 4 * a + 2 * b + c"
    using d by simp
  show "(8 * q + (4 * a + 2 * b + c)) mod 8 div 4 = a"
    unfolding m using abc by auto
  show "(8 * q + (4 * a + 2 * b + c)) mod 8 div 2 mod 2 = b"
    unfolding m using abc by auto
  have "(8 * q + (4 * a + 2 * b + c)) mod 2 = c mod 2"
    by presburger
  then show "(8 * q + (4 * a + 2 * b + c)) mod 2 = c"
    using assms(3) by simp
qed

lemma deinterleave_interleave:
  "ix < 2 ^ level \<Longrightarrow> iy < 2 ^ level \<Longrightarrow> iz < 2 ^ level \<Longrightarrow>
   deinterleave level (interleave level ix iy iz) = (ix, iy, iz)"
proof (induction level arbitrary: ix iy iz)
  case 0
  then show ?case by simp
next
  case (Suc level)
  have h: "ix div 2 < 2 ^ level" "iy div 2 < 2 ^ level" "iz div 2 < 2 ^ level"
    using Suc.prems by (simp_all add: less_mult_imp_div_less mult.commute)
  have b: "ix mod 2 < 2" "iy mod 2 < 2" "iz mod 2 < 2" by simp_all
  note o = octal_digit [OF b, of "interleave level (ix div 2) (iy div 2) (iz div 2)"]
  have "deinterleave (Suc level) (interleave (Suc level) ix iy iz)
        = (2 * (ix div 2) + ix mod 2, 2 * (iy div 2) + iy mod 2, 2 * (iz div 2) + iz mod 2)"
    by (simp only: interleave.simps deinterleave.simps o Suc.IH [OF h] prod.case)
  then show ?case by simp
qed

text \<open>
  C7: for a point whose quantized coordinates fit the bit fields of the key, the box decoded
  from the encoded key contains the quantized point.
\<close>

theorem decode_encode_contains:
  assumes "quantized (ix, iy, iz)"
  shows "containsPoint (decode (encode (ix, iy, iz))) (ix, iy, iz)"
proof -
  have "interleave maxTreeLevel64 ix iy iz < 8 ^ maxTreeLevel64"
    by (rule interleave_bound)
  also have "(8 :: nat) ^ maxTreeLevel64 < 2 ^ 64"
    by (simp add: maxTreeLevel64_def)
  finally have "unat (word_of_nat (interleave maxTreeLevel64 ix iy iz) :: 64 word)
      = interleave maxTreeLevel64 ix iy iz"
    by (intro of_nat_inverse [OF refl]) simp
  moreover have "deinterleave maxTreeLevel64 (interleave maxTreeLevel64 ix iy iz) = (ix, iy, iz)"
    using assms by (intro deinterleave_interleave) (simp_all add: quantized_def)
  ultimately show ?thesis
    by (simp add: encode_def decode_def containsPoint_def)
qed

theorem decode_encode_contains_witness:
  "quantized (5, 2097151, 0) \<and> containsPoint (decode (encode (5, 2097151, 0))) (5, 2097151, 0)"
proof -
  have q: "quantized (5, 2097151, 0)"
    by (simp add: quantized_def maxTreeLevel64_def)
  from decode_encode_contains [OF q] q show ?thesis by (intro conjI)
qed

section \<open>The cornerstone array stays sorted and gapless\<close>

lemma split_keys:
  assumes "8 \<le> b - a"
  shows "sorted_wrt (<) (map (\<lambda>k. a + k * ((b - a) div 8)) [0..<8])"
    and "\<forall>x \<in> set (map (\<lambda>k. a + k * ((b - a) div 8)) [0..<8]). a \<le> x \<and> x < b"
proof -
  define s where "s = (b - a) div 8"
  have s: "0 < s" using assms by (simp add: s_def div_greater_zero_iff)
  have "8 * s \<le> b - a" by (simp add: s_def)
  with assms have le: "a + 8 * s \<le> b" by simp
  have lt: "a + k * s < b" if "k < 8" for k
  proof -
    have "k * s < 8 * s" using that s by simp
    with le show ?thesis by linarith
  qed
  have "sorted_wrt (<) (map (\<lambda>k. a + k * s) [0..<8])"
    unfolding sorted_wrt_iff_nth_less
  proof (intro allI impI)
    fix i j assume "i < j" and "j < length (map (\<lambda>k. a + k * s) [0..<8])"
    then have ij: "i < j" "j < 8" "i < 8" by simp_all
    then have "map (\<lambda>k. a + k * s) [0..<8] ! i = a + i * s"
      "map (\<lambda>k. a + k * s) [0..<8] ! j = a + j * s"
      by (simp_all only: nth_map length_upt nth_upt diff_zero add_0)
    with ij(1) s show "map (\<lambda>k. a + k * s) [0..<8] ! i < map (\<lambda>k. a + k * s) [0..<8] ! j"
      by simp
  qed
  then show "sorted_wrt (<) (map (\<lambda>k. a + k * ((b - a) div 8)) [0..<8])"
    by (simp only: s_def)
  have "\<forall>x \<in> set (map (\<lambda>k. a + k * s) [0..<8]). a \<le> x \<and> x < b"
  proof
    fix x assume "x \<in> set (map (\<lambda>k. a + k * s) [0..<8])"
    then obtain k where "k < 8" "x = a + k * s"
      unfolding set_map set_upt by auto
    with lt [of k] show "a \<le> x \<and> x < b" by simp
  qed
  then show "\<forall>x \<in> set (map (\<lambda>k. a + k * ((b - a) div 8)) [0..<8]). a \<le> x \<and> x < b"
    by (simp only: s_def)
qed

lemma sorted_hd_le:
  "sorted_wrt (<) (tree :: nat list) \<Longrightarrow> tree \<noteq> [] \<Longrightarrow> x \<in> set tree \<Longrightarrow> hd tree \<le> x"
  by (cases tree) (auto simp: less_imp_le)

lemma rebalanceTree_sorted:
  "sorted_wrt (<) tree \<Longrightarrow> splittable tree ops \<Longrightarrow> tree \<noteq> [] \<Longrightarrow>
   sorted_wrt (<) (rebalanceTree tree ops) \<and> rebalanceTree tree ops \<noteq> [] \<and>
   last (rebalanceTree tree ops) = last tree \<and> (\<forall>x \<in> set (rebalanceTree tree ops). hd tree \<le> x)"
proof (induction tree ops rule: rebalanceTree.induct)
  case (1 a b rest opn ops)
  let ?e = "if opn = 8 then map (\<lambda>k. a + k * ((b - a) div 8)) [0..<8]
            else if opn = 1 then [a] else []"
  let ?r = "rebalanceTree (b # rest) ops"
  have ab: "a < b" using "1.prems"(1) by simp
  have ih: "sorted_wrt (<) ?r" "?r \<noteq> []" "last ?r = last (b # rest)" "\<forall>x \<in> set ?r. b \<le> x"
    using "1.IH" "1.prems" by simp_all
  have e: "sorted_wrt (<) ?e \<and> (\<forall>x \<in> set ?e. a \<le> x \<and> x < b)"
  proof (cases "opn = 8")
    case True
    with "1.prems"(2) have "8 \<le> b - a" by simp
    from split_keys [OF this] True show ?thesis by simp
  next
    case False
    with ab show ?thesis by simp
  qed
  have "sorted_wrt (<) (?e @ ?r)"
    unfolding sorted_wrt_append using e ih(1,4) by fastforce
  moreover have "\<forall>x \<in> set (?e @ ?r). a \<le> x"
    using e ih(4) ab by fastforce
  moreover have "last (?e @ ?r) = last (a # b # rest)"
    using ih(2,3) by simp
  ultimately show ?case using ih(2) by simp
qed (auto simp: sorted_hd_le)

lemma rebalanceTree_hd:
  "tree \<noteq> [] \<Longrightarrow> (ops \<noteq> [] \<longrightarrow> hd ops \<noteq> 0) \<Longrightarrow> (ops \<noteq> [] \<longrightarrow> hd ops = 8 \<or> hd ops = 1) \<Longrightarrow>
   hd (rebalanceTree tree ops) = hd tree"
  by (induction tree ops rule: rebalanceTree.induct) (auto simp: upt_conv_Cons)

lemma splittable_nth:
  "(\<And>i. i < length ops \<Longrightarrow> Suc i < length tree \<Longrightarrow> ops ! i = 8 \<Longrightarrow> 8 \<le> tree ! Suc i - tree ! i) \<Longrightarrow>
   splittable tree ops"
proof (induction tree ops rule: splittable.induct)
  case (1 a b rest opn ops)
  have "opn = 8 \<longrightarrow> 8 \<le> b - a"
    using "1.prems" [of 0] by simp
  moreover have "splittable (b # rest) ops"
  proof (rule "1.IH")
    fix i assume "i < length ops" "Suc i < length (b # rest)" "ops ! i = 8"
    then show "8 \<le> (b # rest) ! Suc i - (b # rest) ! i"
      using "1.prems" [of "Suc i"] by simp
  qed
  ultimately show ?case by simp
qed simp_all

lemma siblingRun_le:
  assumes "siblingRun tree i = Some first"
  shows "first \<le> i"
proof -
  have g: "(if c then Some x else None) = None \<or> (if c then Some x else None) = Some x"
    for c and x :: nat
    by simp
  have "siblingRun tree i = None \<or>
        siblingRun tree i = Some (i - (tree ! i div (tree ! Suc i - tree ! i)) mod 8)"
    unfolding siblingRun_def Let_def by (rule g)
  with assms show ?thesis by auto
qed

lemma rebalanceDecision_cases:
  "rebalanceDecision tree counts bucketSize i = 8 \<and> 8 \<le> tree ! Suc i - tree ! i \<or>
   rebalanceDecision tree counts bucketSize i = 1 \<or>
   rebalanceDecision tree counts bucketSize i = 0 \<and> 0 < i"
proof (cases "bucketSize < counts ! i \<and> 8 \<le> tree ! Suc i - tree ! i")
  case True
  then show ?thesis by (simp add: rebalanceDecision_def)
next
  case False
  show ?thesis
  proof (cases "siblingRun tree i")
    case None
    with False show ?thesis by (simp add: rebalanceDecision_def)
  next
    case (Some first)
    from siblingRun_le [OF this] have "i = first \<or> 0 < i" by auto
    with False Some show ?thesis by (auto simp: rebalanceDecision_def)
  qed
qed

lemma nodeOps_splittable: "splittable tree (nodeOps tree counts bucketSize)"
proof (rule splittable_nth)
  fix i assume "i < length (nodeOps tree counts bucketSize)"
    and "nodeOps tree counts bucketSize ! i = 8"
  then have "rebalanceDecision tree counts bucketSize i = 8"
    by (simp add: nodeOps_def)
  with rebalanceDecision_cases [of tree counts bucketSize i]
  show "8 \<le> tree ! Suc i - tree ! i" by auto
qed

lemma nodeOps_hd:
  assumes "nodeOps tree counts bucketSize \<noteq> []"
  shows "hd (nodeOps tree counts bucketSize) = 8 \<or> hd (nodeOps tree counts bucketSize) = 1"
proof -
  have "0 < length tree - 1" using assms by (simp add: nodeOps_def)
  then have "hd (nodeOps tree counts bucketSize) = rebalanceDecision tree counts bucketSize 0"
    by (simp add: nodeOps_def hd_map upt_conv_Cons)
  with rebalanceDecision_cases [of tree counts bucketSize 0] show ?thesis by auto
qed

lemma rebalancePass_cornerstone:
  assumes "cornerstone K tree"
  shows "cornerstone K (rebalancePass bucketSize tree counts)"
proof -
  from assms have t: "tree \<noteq> []" "hd tree = 0" "last tree = K" "sorted_wrt (<) tree"
    by (simp_all add: cornerstone_def)
  note s = rebalanceTree_sorted [OF t(4) nodeOps_splittable t(1), of counts bucketSize]
  have "hd (rebalanceTree tree (nodeOps tree counts bucketSize)) = hd tree"
    using nodeOps_hd [of tree counts bucketSize] by (intro rebalanceTree_hd t(1)) auto
  with s t show ?thesis
    by (simp add: cornerstone_def rebalancePass_def)
qed

lemma interval_exists:
  "sorted_wrt (<) (xs :: nat list) \<Longrightarrow> xs \<noteq> [] \<Longrightarrow> hd xs \<le> k \<Longrightarrow> k < last xs \<Longrightarrow>
   \<exists>i. Suc i < length xs \<and> xs ! i \<le> k \<and> k < xs ! Suc i"
proof (induction xs)
  case Nil
  then show ?case by simp
next
  case (Cons a xs)
  note prems = Cons.prems and IH = Cons.IH
  show ?case
  proof (cases xs)
    case Nil
    with prems(3,4) have "a \<le> k" "k < a" by simp_all
    then show ?thesis by linarith
  next
    case (Cons b ys)
    show ?thesis
    proof (cases "k < b")
      case True
      with Cons prems(3) show ?thesis by (intro exI [of _ 0]) simp
    next
      case False
      have "sorted_wrt (<) xs" "xs \<noteq> []" "hd xs \<le> k" "k < last xs"
        using prems Cons False by simp_all
      from IH [OF this] obtain i where "Suc i < length xs \<and> xs ! i \<le> k \<and> k < xs ! Suc i" ..
      then show ?thesis by (intro exI [of _ "Suc i"]) simp
    qed
  qed
qed

lemma sorted_nth_le:
  assumes "sorted_wrt (<) (xs :: nat list)" "i \<le> j" "j < length xs"
  shows "xs ! i \<le> xs ! j"
proof (cases "i = j")
  case True
  then show ?thesis by simp
next
  case False
  with assms(2) have "i < j" by simp
  from sorted_wrt_nth_less [OF assms(1) this assms(3)] show ?thesis by simp
qed

lemma interval_unique:
  assumes "sorted_wrt (<) (xs :: nat list)" "Suc i < length xs" "xs ! i \<le> k" "k < xs ! Suc i"
    "Suc j < length xs" "xs ! j \<le> k" "k < xs ! Suc j"
  shows "i = j"
proof (rule ccontr)
  assume "i \<noteq> j"
  then consider "Suc i \<le> j" | "Suc j \<le> i" by linarith
  then show False
  proof cases
    case 1
    have "j < length xs" using assms(5) by simp
    from sorted_nth_le [OF assms(1) 1 this] assms(4,6) show False by simp
  next
    case 2
    have "i < length xs" using assms(2) by simp
    from sorted_nth_le [OF assms(1) 2 this] assms(3,7) show False by simp
  qed
qed

lemma cornerstone_partition:
  assumes "cornerstone K tree" "k < K"
  shows "\<exists>!i. Suc i < length tree \<and> tree ! i \<le> k \<and> k < tree ! Suc i"
proof -
  from assms have t: "tree \<noteq> []" "hd tree \<le> k" "k < last tree" "sorted_wrt (<) tree"
    by (simp_all add: cornerstone_def)
  from interval_exists [OF t(4,1,2,3)] obtain i where
    "Suc i < length tree \<and> tree ! i \<le> k \<and> k < tree ! Suc i" ..
  then show ?thesis
    using interval_unique [OF t(4)] by (intro ex1I [of _ i]) auto
qed

lemma passes_cornerstone:
  "cornerstone K tree \<Longrightarrow> cornerstone K (foldl (rebalancePass bucketSize) tree passes)"
  by (induction passes arbitrary: tree) (simp_all add: rebalancePass_cornerstone)

text \<open>
  C8: the array of the single root leaf is a cornerstone array, and the array after any number
  of split/fuse passes over a cornerstone array is again one: it starts at 0, ends at the size
  of the key space and is strictly increasing; every key of the key space then lies in the
  interval of exactly one leaf.
\<close>

theorem cornerstone_preserved:
  "(0 < K \<longrightarrow> cornerstone K [0, K]) \<and>
   (cornerstone K tree \<longrightarrow>
      cornerstone K (rebalancePass bucketSize tree counts) \<and>
      cornerstone K (foldl (rebalancePass bucketSize) tree passes) \<and>
      (\<forall>k \<in> set [0..<K].
         \<exists>!i. Suc i < length (rebalancePass bucketSize tree counts) \<and>
              rebalancePass bucketSize tree counts ! i \<le> k \<and>
              k < rebalancePass bucketSize tree counts ! Suc i))"
proof (intro conjI impI ballI)
  assume "0 < K"
  then show "cornerstone K [0, K]" by (simp add: cornerstone_def)
next
  assume c: "cornerstone K tree"
  then show "cornerstone K (rebalancePass bucketSize tree counts)"
    by (rule rebalancePass_cornerstone)
  from c show "cornerstone K (foldl (rebalancePass bucketSize) tree passes)"
    by (rule passes_cornerstone)
  fix k assume "k \<in> set [0..<K]"
  then have "k < K" by simp
  with rebalancePass_cornerstone [OF c]
  show "\<exists>!i. Suc i < length (rebalancePass bucketSize tree counts) \<and>
              rebalancePass bucketSize tree counts ! i \<le> k \<and>
              k < rebalancePass bucketSize tree counts ! Suc i"
    by (rule cornerstone_partition)
qed

theorem cornerstone_preserved_witness:
  "(0 :: nat) < 64 \<and> cornerstone 64 [0, 64] \<and>
   cornerstone 64 (rebalancePass 2 [0, 64] [5]) \<and>
   cornerstone 64 (foldl (rebalancePass 2) [0, 64] [[5], [0, 1, 0, 3, 0, 0, 0, 0]]) \<and>
   10 \<in> set [0..<64] \<and>
   (\<exists>!i. Suc i < length (rebalancePass 2 [0, 64] [5]) \<and>
         rebalancePass 2 [0, 64] [5] ! i \<le> 10 \<and> 10 < rebalancePass 2 [0, 64] [5] ! Suc i)"
proof -
  note t = cornerstone_preserved [of 64 "[0, 64]" 2 "[5]" "[[5], [0, 1, 0, 3, 0, 0, 0, 0]]"]
  have k: "(0 :: nat) < 64" by simp
  have m: "10 \<in> set [0..<64]" by simp
  from t k have c: "cornerstone 64 [0, 64]" by blast
  from t c have 1: "cornerstone 64 (rebalancePass 2 [0, 64] [5])"
    and 2: "cornerstone 64 (foldl (rebalancePass 2) [0, 64] [[5], [0, 1, 0, 3, 0, 0, 0, 0]])"
    and 3: "\<forall>k \<in> set [0..<64].
         \<exists>!i. Suc i < length (rebalancePass 2 [0, 64] [5]) \<and>
              rebalancePass 2 [0, 64] [5] ! i \<le> k \<and> k < rebalancePass 2 [0, 64] [5] ! Suc i"
    by blast+
  from bspec [OF 3 m] k c 1 2 m show ?thesis by (intro conjI)
qed

section \<open>The instance, evaluated\<close>

lemma octants: "[0..<8] = [0, 1, 2, 3, 4, 5, 6, 7]"
  by (simp add: upt_rec)

lemma ex_decode:
  "decodePrefixLength64 1 = 0"
  "decodePrefixLength64 8 = 3"
  "decodePrefixLength64 9 = 3"
  "decodePrefixLength64 10 = 3"
  "decodePrefixLength64 11 = 3"
  "decodePrefixLength64 12 = 3"
  "decodePrefixLength64 13 = 3"
  "decodePrefixLength64 14 = 3"
  "decodePrefixLength64 15 = 3"
  "decodePrefixLength64 88 = 6"
  "decodePrefixLength64 89 = 6"
  "decodePrefixLength64 90 = 6"
  "decodePrefixLength64 91 = 6"
  "decodePrefixLength64 92 = 6"
  "decodePrefixLength64 93 = 6"
  "decodePrefixLength64 94 = 6"
  "decodePrefixLength64 95 = 6"
  "decodePlaceholderBit64 1 = 0"
  "decodePlaceholderBit64 8 = 0"
  "decodePlaceholderBit64 9 = 1152921504606846976"
  "decodePlaceholderBit64 10 = 2305843009213693952"
  "decodePlaceholderBit64 11 = 3458764513820540928"
  "decodePlaceholderBit64 12 = 4611686018427387904"
  "decodePlaceholderBit64 13 = 5764607523034234880"
  "decodePlaceholderBit64 14 = 6917529027641081856"
  "decodePlaceholderBit64 15 = 8070450532247928832"
  "decodePlaceholderBit64 88 = 3458764513820540928"
  "decodePlaceholderBit64 89 = 3602879701896396800"
  "decodePlaceholderBit64 90 = 3746994889972252672"
  "decodePlaceholderBit64 91 = 3891110078048108544"
  "decodePlaceholderBit64 92 = 4035225266123964416"
  "decodePlaceholderBit64 93 = 4179340454199820288"
  "decodePlaceholderBit64 94 = 4323455642275676160"
  "decodePlaceholderBit64 95 = 4467570830351532032"
  by (simp_all add: decodePlaceholderBit64_def decodePrefixLength64_def maxTreeLevel64_def highestBit.simps)

lemma traverseRec_numeral:
  "traverseRec crit co (numeral k) n =
     do {
       c \<leftarrow> crit n;
       if \<not> c then Some []
       else do {
         off \<leftarrow> rd co n;
         if off = 0 then Some [n]
         else concatOpt (map (\<lambda>octant. traverseRec crit co (pred_numeral k) (off + int octant)) [0..<8])
       }
     }"
  by (simp add: numeral_eq_Suc)

lemma traverseRec_1:
  "traverseRec crit co 1 n =
     do {
       c \<leftarrow> crit n;
       if \<not> c then Some []
       else do { off \<leftarrow> rd co n; if off = 0 then Some [n] else None }
     }"
  by (auto simp: octants split: Option.bind_splits)

lemmas ex_defs = lineCpu_def lineGpu_def lineCodec_def exPrefixes_def exChildOffsets_def
  exToInternal_def exToLeaf_def exRadii_def exRadiiZero_def exFlags_def exFlagsUsed_def ex_decode
  maxTreeLevel64_def nodeRange64_def lineHaloBox_def lineContainedIn_def
  lineOverlaps_def

lemmas ex_eval = findHalosCpu_def findHalosLeaf_def findCollisionsCpu_def collides_def rd_def wr_def
  keyStart_def keyEnd_def ex_defs octants traverseRec_numeral traverseRec_1

lemma ex_range: "validRange 3 11" "iceilSpec lineCodec (11 - 3) 128" "iceil lineCodec (11 - 3) 128 = 1"
  by (simp_all add: validRange_def iceilSpec_def lineCodec_def)

lemma ex_schedule: "schedule 1 128 (rev (grid 1 128))"
  by (simp add: schedule_def)

lemma ex_cpu:
  "findHalosCpu (lineCodec\<lparr>findCollisions := findCollisionsCpu lineCodec lineOverlaps 3\<rparr>)
     exPrefixes exChildOffsets exToInternal exToLeaf exRadii () 3 11 exFlags
   = Some [0, 0, 1, 0, 0, 0, 0, 0, 0, 0, 0, 1, 0, 0, 0]"
  by (simp add: ex_eval)

lemma ex_cpu_used:
  "findHalosCpu (lineCodec\<lparr>findCollisions := findCollisionsCpu lineCodec lineOverlaps 3\<rparr>)
     exPrefixes exChildOffsets exToInternal exToLeaf exRadii () 3 11 exFlagsUsed
   = Some [0, 0, 1, 0, 0, 7, 0, 0, 0, 0, 0, 1, 0, 0, 1]"
  by (simp add: ex_eval)

theorem findHalosGpu_agrees_with_cpu_witness:
  "validRange 3 11 \<and> iceilSpec lineCodec (11 - 3) 128 \<and>
   schedule (iceil lineCodec (11 - 3) 128) 128 (rev (grid 1 128)) \<and> 7 * (3 - 1) + 1 \<le> (15 :: nat) \<and>
   findHalosCpu (lineCodec\<lparr>findCollisions := findCollisionsCpu lineCodec lineOverlaps 3\<rparr>)
     exPrefixes exChildOffsets exToInternal exToLeaf exRadii () 3 11 exFlags
     = Some [0, 0, 1, 0, 0, 0, 0, 0, 0, 0, 0, 1, 0, 0, 0] \<and>
   findHalosGpu (rev (grid 1 128))
     (lineCodec\<lparr>findCollisions := findCollisionsGpu lineCodec lineOverlaps 15\<rparr>)
     exPrefixes exChildOffsets exToInternal exToLeaf exRadii () 3 11 exFlags
     = Some [0, 0, 1, 0, 0, 0, 0, 0, 0, 0, 0, 1, 0, 0, 0]"
proof -
  have s: "schedule (iceil lineCodec (11 - 3) 128) 128 (rev (grid 1 128))"
    using ex_schedule by (simp only: ex_range(3))
  have c: "7 * (3 - 1) + 1 \<le> (15 :: nat)" by simp
  from findHalosGpu_agrees_with_cpu [OF ex_range(1,2) s c ex_cpu] ex_range(1,2) s c ex_cpu
  show ?thesis by (intro conjI)
qed

lemma ex_reach: "reach exChildOffsets 3"
proof -
  have "reach exChildOffsets (1 + int 2)"
    by (rule reach.child [OF reach.root]) (simp_all add: rd_def exChildOffsets_def)
  then show ?thesis by simp
qed

lemma ex_boxes:
  "haloBoxOf lineCodec exPrefixes exToInternal exRadii () 3 = (3458764513820540923, 3602879701896396805)"
  "lowestKeyOf lineCodec exPrefixes exToInternal 3 = 3458764513820540928"
  "highestKeyOf lineCodec exPrefixes exToInternal 11 = 4611686018427387904"
  "keyStart lineCodec (exPrefixes ! nat 3) = 2305843009213693952"
  "keyEnd lineCodec (exPrefixes ! nat 3) = 3458764513820540928"
  by (simp_all add: haloBoxOf_def lowestKeyOf_def highestKeyOf_def keyStart_def keyEnd_def ex_defs)

lemma upt17: "[0..<17] = [0, 1, 2, 3, 4, 5, 6, 7, 8, 9, 10, 11, 12, 13, 14, 15, 16]"
  by (simp add: upt_rec)

lemma upt15: "[0..<15] = [0, 1, 2, 3, 4, 5, 6, 7, 8, 9, 10, 11, 12, 13, 14]"
  by (simp add: upt_rec)

lemma set_lineCells: "set (lineCells hb) = {k. fst hb \<le> k \<and> k < snd hb}"
proof (intro set_eqI iffI)
  fix k
  assume "k \<in> set (lineCells hb)"
  then obtain n where n: "k = word_of_nat n" "unat (fst hb) \<le> n" "n < unat (snd hb)"
    by (auto simp: lineCells_def)
  have "unat (snd hb) < 2 ^ LENGTH(64)" by (rule unsigned_less)
  with n(3) have "n < 2 ^ LENGTH(64)" by simp
  then have "unat k = n" unfolding n(1) by (simp add: unat_of_nat)
  with n(2,3) show "k \<in> {k. fst hb \<le> k \<and> k < snd hb}"
    by (simp add: word_le_nat_alt word_less_nat_alt)
next
  fix k
  assume "k \<in> {k. fst hb \<le> k \<and> k < snd hb}"
  then have "unat (fst hb) \<le> unat k" "unat k < unat (snd hb)"
    by (simp_all add: word_le_nat_alt word_less_nat_alt)
  then have "word_of_nat (unat k) \<in> set (lineCells hb)"
    unfolding lineCells_def set_map by (intro imageI) simp
  then show "k \<in> set (lineCells hb)" by simp
qed

lemma line_contained:
  "containedInCells lineCells lo hi hb \<longleftrightarrow> (fst hb < snd hb \<longrightarrow> lo \<le> fst hb \<and> snd hb \<le> hi)"
proof -
  have "containedInCells lineCells lo hi hb \<longleftrightarrow> (\<forall>k. fst hb \<le> k \<and> k < snd hb \<longrightarrow> lo \<le> k \<and> k < hi)"
    by (auto simp: containedInCells_def list_all_iff set_lineCells)
  also have "\<dots> \<longleftrightarrow> (fst hb < snd hb \<longrightarrow> lo \<le> fst hb \<and> snd hb \<le> hi)"
  proof (intro iffI impI allI)
    assume a: "\<forall>k. fst hb \<le> k \<and> k < snd hb \<longrightarrow> lo \<le> k \<and> k < hi" and ne: "fst hb < snd hb"
    from a ne have 1: "lo \<le> fst hb" by simp
    have 2: "snd hb \<le> hi"
    proof (rule ccontr)
      assume "\<not> snd hb \<le> hi"
      then have hi: "hi < snd hb" by simp
      show False
      proof (cases "fst hb \<le> hi")
        case True
        with a hi have "hi < hi" by blast
        then show False by simp
      next
        case False
        with a ne have "fst hb < hi" by simp
        with False show False by simp
      qed
    qed
    from 1 2 show "lo \<le> fst hb \<and> snd hb \<le> hi" ..
  next
    fix k
    assume "fst hb < snd hb \<longrightarrow> lo \<le> fst hb \<and> snd hb \<le> hi" and "fst hb \<le> k \<and> k < snd hb"
    then show "lo \<le> k \<and> k < hi" by auto
  qed
  finally show ?thesis .
qed

lemma line_overlaps:
  "overlapsCells lineCells a b hb \<longleftrightarrow> fst hb < b \<and> a < snd hb \<and> fst hb < snd hb \<and> a < b"
proof -
  have "overlapsCells lineCells a b hb \<longleftrightarrow> (\<exists>k. fst hb \<le> k \<and> k < snd hb \<and> a \<le> k \<and> k < b)"
    by (auto simp: overlapsCells_def list_ex_iff set_lineCells)
  also have "\<dots> \<longleftrightarrow> fst hb < b \<and> a < snd hb \<and> fst hb < snd hb \<and> a < b"
  proof
    assume "\<exists>k. fst hb \<le> k \<and> k < snd hb \<and> a \<le> k \<and> k < b"
    then show "fst hb < b \<and> a < snd hb \<and> fst hb < snd hb \<and> a < b" by auto
  next
    assume c: "fst hb < b \<and> a < snd hb \<and> fst hb < snd hb \<and> a < b"
    then have "fst hb \<le> max (fst hb) a \<and> max (fst hb) a < snd hb \<and> a \<le> max (fst hb) a \<and>
               max (fst hb) a < b" by simp
    then show "\<exists>k. fst hb \<le> k \<and> k < snd hb \<and> a \<le> k \<and> k < b" ..
  qed
  finally show ?thesis .
qed

lemma ex_cpu_cells:
  "findHalosCpu
     ((withCells lineCodec lineCells)\<lparr>findCollisions :=
        findCollisionsCpu (withCells lineCodec lineCells) (overlapsCells lineCells) 3\<rparr>)
     exPrefixes exChildOffsets exToInternal exToLeaf exRadii () 3 11 exFlags
   = Some [0, 0, 1, 0, 0, 0, 0, 0, 0, 0, 0, 1, 0, 0, 0]"
  by (simp add: ex_eval withCells_def line_contained line_overlaps)

lemma ex_nested: "nestedRanges lineCodec exPrefixes exChildOffsets"
  by (simp add: nestedRanges_def rd_def keyStart_def keyEnd_def ex_defs upt17 octants)

lemma ex_sorted: "sortedLeaves lineCodec exPrefixes exToInternal"
  by (simp add: sortedLeaves_def leafStart_def leafEnd_def keyStart_def keyEnd_def ex_defs upt15)

lemma ex_paired: "pairedTables exChildOffsets exToInternal exToLeaf"
  by (simp add: pairedTables_def rd_def ex_defs upt17)

theorem findHalos_no_false_negatives_witness:
  "validRange 3 11 \<and> iceilSpec lineCodec (11 - 3) 128 \<and>
   schedule (iceil lineCodec (11 - 3) 128) 128 (rev (grid 1 128)) \<and> 7 * (3 - 1) + 1 \<le> (15 :: nat) \<and>
   findHalosCpu
     ((withCells lineCodec lineCells)\<lparr>findCollisions :=
        findCollisionsCpu (withCells lineCodec lineCells) (overlapsCells lineCells) 3\<rparr>)
     exPrefixes exChildOffsets exToInternal exToLeaf exRadii () 3 11 exFlags
     = Some [0, 0, 1, 0, 0, 0, 0, 0, 0, 0, 0, 1, 0, 0, 0] \<and>
   nestedRanges lineCodec exPrefixes exChildOffsets \<and>
   sortedLeaves lineCodec exPrefixes exToInternal \<and>
   pairedTables exChildOffsets exToInternal exToLeaf \<and>
   (3 :: int) \<le> 3 \<and> (3 :: int) < 11 \<and> reach exChildOffsets 3 \<and> rd exChildOffsets 3 = Some 0 \<and>
   \<not> (lowestKeyOf lineCodec exPrefixes exToInternal 3 \<le> keyStart lineCodec (exPrefixes ! nat 3) \<and>
      keyEnd lineCodec (exPrefixes ! nat 3) \<le> highestKeyOf lineCodec exPrefixes exToInternal 11) \<and>
   overlapsCells lineCells (keyStart lineCodec (exPrefixes ! nat 3))
     (keyEnd lineCodec (exPrefixes ! nat 3))
     (haloBoxOf lineCodec exPrefixes exToInternal exRadii () 3) \<and>
   \<not> containedInCells lineCells (lowestKeyOf lineCodec exPrefixes exToInternal 3)
       (highestKeyOf lineCodec exPrefixes exToInternal 11)
       (haloBoxOf lineCodec exPrefixes exToInternal exRadii () 3) \<and>
   findHalosGpu (rev (grid 1 128))
     ((withCells lineCodec lineCells)\<lparr>findCollisions :=
        findCollisionsGpu (withCells lineCodec lineCells) (overlapsCells lineCells) 15\<rparr>)
     exPrefixes exChildOffsets exToInternal exToLeaf exRadii () 3 11 exFlags
     = Some [0, 0, 1, 0, 0, 0, 0, 0, 0, 0, 0, 1, 0, 0, 0] \<and>
   (\<exists>l. rd exToLeaf 3 = Some l \<and> 0 \<le> l \<and>
        l < int (length [0, 0, 1, 0, 0, 0, 0, 0, 0, 0, 0, 1, 0, 0, 0 :: int]) \<and>
        [0, 0, 1, 0, 0, 0, 0, 0, 0, 0, 0, 1, 0, 0, 0 :: int] ! nat l = 1)"
proof -
  have s: "schedule (iceil lineCodec (11 - 3) 128) 128 (rev (grid 1 128))"
    using ex_schedule by (simp only: ex_range(3))
  have c: "7 * (3 - 1) + 1 \<le> (15 :: nat)" by simp
  have i: "(3 :: int) \<le> 3" "(3 :: int) < 11" by simp_all
  have l: "rd exChildOffsets 3 = Some 0" by (simp add: rd_def exChildOffsets_def)
  have out: "\<not> (lowestKeyOf lineCodec exPrefixes exToInternal 3 \<le> keyStart lineCodec (exPrefixes ! nat 3) \<and>
      keyEnd lineCodec (exPrefixes ! nat 3) \<le> highestKeyOf lineCodec exPrefixes exToInternal 11)"
    unfolding ex_boxes by simp
  have ov: "overlapsCells lineCells (keyStart lineCodec (exPrefixes ! nat 3))
     (keyEnd lineCodec (exPrefixes ! nat 3))
     (haloBoxOf lineCodec exPrefixes exToInternal exRadii () 3)"
    unfolding ex_boxes by (simp add: line_overlaps)
  from findHalos_no_false_negatives
         [OF ex_range(1,2) s c ex_cpu_cells ex_nested ex_sorted ex_paired i ex_reach l out ov]
    ex_range(1,2) s c ex_cpu_cells ex_nested ex_sorted ex_paired i ex_reach l out ov
  show ?thesis by (intro conjI) simp_all
qed

lemma ex_gpu_used:
  "findHalosGpu (rev (grid 1 128))
     (lineCodec\<lparr>findCollisions := findCollisionsGpu lineCodec lineOverlaps 15\<rparr>)
     exPrefixes exChildOffsets exToInternal exToLeaf exRadii () 3 11 exFlagsUsed
   = Some [0, 0, 1, 0, 0, 7, 0, 0, 0, 0, 0, 1, 0, 0, 1]"
proof -
  have s: "schedule (iceil lineCodec (11 - 3) 128) 128 (rev (grid 1 128))"
    using ex_schedule by (simp only: ex_range(3))
  have c: "7 * (3 - 1) + 1 \<le> (15 :: nat)" by simp
  show ?thesis by (rule launch_as_cpu [OF ex_range(1,2) s c ex_cpu_used])
qed

lemma ex_mark: "markCollisions exToLeaf exFlags 3 = Some [0, 0, 1, 0, 0, 0, 0, 0, 0, 0, 0, 0, 0, 0, 0]"
  by (simp add: markCollisions_def rd_def wr_def exToLeaf_def exFlags_def)

theorem findHalosGpu_only_sets_flags_witness:
  "findHalosGpu (rev (grid 1 128))
     (lineCodec\<lparr>findCollisions := findCollisionsGpu lineCodec lineOverlaps 15\<rparr>)
     exPrefixes exChildOffsets exToInternal exToLeaf exRadii () 3 11 exFlagsUsed
     = Some [0, 0, 1, 0, 0, 7, 0, 0, 0, 0, 0, 1, 0, 0, 1] \<and>
   length [0, 0, 1, 0, 0, 7, 0, 0, 0, 0, 0, 1, 0, 0, 1 :: int] = length exFlagsUsed \<and>
   list_all (\<lambda>j.
      ([0, 0, 1, 0, 0, 7, 0, 0, 0, 0, 0, 1, 0, 0, 1] ! j = exFlagsUsed ! j \<or>
       [0, 0, 1, 0, 0, 7, 0, 0, 0, 0, 0, 1, 0, 0, 1 :: int] ! j = 1) \<and>
      (exFlagsUsed ! j \<noteq> 0 \<longrightarrow> [0, 0, 1, 0, 0, 7, 0, 0, 0, 0, 0, 1, 0, 0, 1 :: int] ! j \<noteq> 0))
     [0..<length exFlagsUsed] \<and>
   exFlagsUsed ! 5 = 7 \<and> [0, 0, 1, 0, 0, 7, 0, 0, 0, 0, 0, 1, 0, 0, 1 :: int] ! 5 = 7 \<and>
   markCollisions exToLeaf exFlags 3 = Some [0, 0, 1, 0, 0, 0, 0, 0, 0, 0, 0, 0, 0, 0, 0] \<and>
   [0, 0, 1, 0, 0, 0, 0, 0, 0, 0, 0, 0, 0, 0, 0 :: int] ! nat (exToLeaf ! nat 3) = 1 \<and>
   markCollisions exToLeaf [0, 0, 1, 0, 0, 0, 0, 0, 0, 0, 0, 0, 0, 0, 0] 3
     = Some [0, 0, 1, 0, 0, 0, 0, 0, 0, 0, 0, 0, 0, 0, 0]"
proof -
  note t = findHalosGpu_only_sets_flags [where toLeafOrder = exToLeaf and i = 3]
  from t [where sched = "rev (grid 1 128)"
      and h = "lineCodec\<lparr>findCollisions := findCollisionsGpu lineCodec lineOverlaps 15\<rparr>"
      and nodePrefixes = exPrefixes and childOffsets = exChildOffsets
      and toInternalOrder = exToInternal and interactionRadii = exRadii and box = "()"
      and firstNode = 3 and lastNode = 11 and flags = exFlagsUsed
      and flags' = "[0, 0, 1, 0, 0, 7, 0, 0, 0, 0, 0, 1, 0, 0, 1]"] ex_gpu_used
  have 1: "length [0, 0, 1, 0, 0, 7, 0, 0, 0, 0, 0, 1, 0, 0, 1 :: int] = length exFlagsUsed \<and>
   list_all (\<lambda>j.
      ([0, 0, 1, 0, 0, 7, 0, 0, 0, 0, 0, 1, 0, 0, 1] ! j = exFlagsUsed ! j \<or>
       [0, 0, 1, 0, 0, 7, 0, 0, 0, 0, 0, 1, 0, 0, 1 :: int] ! j = 1) \<and>
      (exFlagsUsed ! j \<noteq> 0 \<longrightarrow> [0, 0, 1, 0, 0, 7, 0, 0, 0, 0, 0, 1, 0, 0, 1 :: int] ! j \<noteq> 0))
     [0..<length exFlagsUsed]"
    unfolding list_all_iff by blast
  from t [where flags = exFlags and marked = "[0, 0, 1, 0, 0, 0, 0, 0, 0, 0, 0, 0, 0, 0, 0]"
      and h = lineGpu and nodePrefixes = exPrefixes and box = "()" and interactionRadii = exRadii]
    ex_mark
  have 2: "[0, 0, 1, 0, 0, 0, 0, 0, 0, 0, 0, 0, 0, 0, 0 :: int] ! nat (exToLeaf ! nat 3) = 1 \<and>
   markCollisions exToLeaf [0, 0, 1, 0, 0, 0, 0, 0, 0, 0, 0, 0, 0, 0, 0] 3
     = Some [0, 0, 1, 0, 0, 0, 0, 0, 0, 0, 0, 0, 0, 0, 0]"
    by blast
  have 3: "exFlagsUsed ! 5 = 7 \<and> [0, 0, 1, 0, 0, 7, 0, 0, 0, 0, 0, 1, 0, 0, 1 :: int] ! 5 = 7"
    by (simp add: exFlagsUsed_def)
  from 1 2 3 ex_gpu_used ex_mark show ?thesis by blast
qed

theorem findHalosGpu_empty_range_no_writes_witness:
  "\<not> leafIdxOf 0 128 8 3 < u32 11 \<and>
   findHalosKernel lineGpu exPrefixes exChildOffsets exToInternal exToLeaf exRadii () 3 11 0 128 8
     exFlags = Some exFlags \<and>
   validRange 3 11 \<and> iceilSpec lineGpu (11 - 3) 128 \<and>
   (0, 100) \<in> set (grid (iceil lineGpu (11 - 3) 128) 128) \<and>
   \<not> ((3 :: int) \<le> int 0 * 128 + int 100 + 3 \<and> int 0 * 128 + int 100 + 3 < (11 :: int)) \<and>
   findHalosKernel lineGpu exPrefixes exChildOffsets exToInternal exToLeaf exRadii () 3 11 0 128 100
     exFlags = Some exFlags \<and>
   iceilSpec lineGpu 0 128 \<and> schedule (iceil lineGpu 0 128) 128 [] \<and>
   findHalosGpu [] lineGpu exPrefixes exChildOffsets exToInternal exToLeaf exRadii () 5 5 exFlags
     = Some exFlags"
proof -
  have a: "\<not> leafIdxOf 0 128 8 3 < u32 11"
    by (simp add: leafIdxOf_def u32_def)
  have b: "validRange 3 11 \<and> iceilSpec lineGpu (11 - 3) 128 \<and>
     (0, 100) \<in> set (grid (iceil lineGpu (11 - 3) 128) 128) \<and>
     \<not> ((3 :: int) \<le> int 0 * 128 + int 100 + 3 \<and> int 0 * 128 + int 100 + 3 < (11 :: int))"
    by (simp add: validRange_def iceilSpec_def lineGpu_def lineCodec_def grid_mem)
  have c: "iceilSpec lineGpu 0 128 \<and> schedule (iceil lineGpu 0 128) 128 []"
    by (simp add: iceilSpec_def lineGpu_def lineCodec_def schedule_def grid_def)
  note t = findHalosGpu_empty_range_no_writes [where h = lineGpu and nodePrefixes = exPrefixes
      and childOffsets = exChildOffsets and toInternalOrder = exToInternal and toLeafOrder = exToLeaf
      and interactionRadii = exRadii and box = "()" and flags = exFlags and b = 0 and t = 100
      and sched = "[]" and blockIdx = 0 and blockDim = 128 and threadIdx = 8]
  from t [where firstNode = 3 and lastNode = 11] a b
  have 1: "findHalosKernel lineGpu exPrefixes exChildOffsets exToInternal exToLeaf exRadii () 3 11
      0 128 8 exFlags = Some exFlags"
    and 2: "findHalosKernel lineGpu exPrefixes exChildOffsets exToInternal exToLeaf exRadii () 3 11
      0 128 100 exFlags = Some exFlags"
    by blast+
  from t [where firstNode = 5 and lastNode = 5] c
  have 3: "findHalosGpu [] lineGpu exPrefixes exChildOffsets exToInternal exToLeaf exRadii () 5 5
      exFlags = Some exFlags"
    by blast
  from 1 2 3 a b c show ?thesis by blast
qed

lemma upto_3_10: "[3..10] = [3, 4, 5, 6, 7, 8, 9, 10 :: int]"
  by (simp add: upto_rec1)

lemma ex_readable: "readableRange exPrefixes exToInternal exRadii 3 11"
  "readableRange exPrefixes exToInternal exRadiiZero 3 11"
  by (simp_all add: readableRange_def readable_def upto_3_10 ex_defs)

lemma ex_fast_leaf:
  "leafIdxOf 0 128 1 3 = 4 \<and>
   readable exPrefixes exToInternal exRadii 4 \<and> readableNode exPrefixes exToInternal 3 \<and>
   readableNode exPrefixes exToInternal (11 - 1) \<and>
   containedIn lineGpu (lowestKeyOf lineGpu exPrefixes exToInternal 3)
     (highestKeyOf lineGpu exPrefixes exToInternal 11)
     (haloBoxOf lineGpu exPrefixes exToInternal exRadii () 4)"
  by (simp add: leafIdxOf_def u32_def readable_def readableNode_def haloBoxOf_def lowestKeyOf_def
        highestKeyOf_def keyStart_def keyEnd_def ex_defs)

lemma ex_fast_pass:
  "validRange 3 11 \<and> iceilSpec lineGpu (11 - 3) 128 \<and>
   schedule (iceil lineGpu (11 - 3) 128) 128 (rev (grid 1 128)) \<and>
   readableRange exPrefixes exToInternal exRadiiZero 3 11 \<and>
   (\<forall>j \<in> set [3..11 - 1].
      containedIn lineGpu (lowestKeyOf lineGpu exPrefixes exToInternal 3)
        (highestKeyOf lineGpu exPrefixes exToInternal 11)
        (haloBoxOf lineGpu exPrefixes exToInternal exRadiiZero () j))"
proof -
  have "iceil lineGpu (11 - 3) 128 = 1" by (simp add: lineGpu_def lineCodec_def)
  then have "schedule (iceil lineGpu (11 - 3) 128) 128 (rev (grid 1 128))"
    using ex_schedule by simp
  moreover have "iceilSpec lineGpu (11 - 3) 128"
    by (simp add: iceilSpec_def lineGpu_def lineCodec_def)
  moreover have "\<forall>j \<in> set [3..11 - 1].
      containedIn lineGpu (lowestKeyOf lineGpu exPrefixes exToInternal 3)
        (highestKeyOf lineGpu exPrefixes exToInternal 11)
        (haloBoxOf lineGpu exPrefixes exToInternal exRadiiZero () j)"
    by (simp add: upto_3_10 haloBoxOf_def lowestKeyOf_def highestKeyOf_def keyStart_def keyEnd_def
          ex_defs)
  ultimately show ?thesis using ex_range(1) ex_readable(2) by blast
qed

theorem findHalos_fast_path_witness:
  "(leafIdxOf 0 128 1 3 = 4 \<and>
    readable exPrefixes exToInternal exRadii 4 \<and> readableNode exPrefixes exToInternal 3 \<and>
    readableNode exPrefixes exToInternal (11 - 1) \<and>
    containedIn lineGpu (lowestKeyOf lineGpu exPrefixes exToInternal 3)
      (highestKeyOf lineGpu exPrefixes exToInternal 11)
      (haloBoxOf lineGpu exPrefixes exToInternal exRadii () 4)) \<and>
   findHalosKernel lineGpu exPrefixes exChildOffsets exToInternal exToLeaf exRadii () 3 11 0 128 1
     exFlags = Some exFlags \<and>
   (validRange 3 11 \<and> iceilSpec lineGpu (11 - 3) 128 \<and>
    schedule (iceil lineGpu (11 - 3) 128) 128 (rev (grid 1 128)) \<and>
    readableRange exPrefixes exToInternal exRadiiZero 3 11 \<and>
    list_all (\<lambda>j.
       containedIn lineGpu (lowestKeyOf lineGpu exPrefixes exToInternal 3)
         (highestKeyOf lineGpu exPrefixes exToInternal 11)
         (haloBoxOf lineGpu exPrefixes exToInternal exRadiiZero () j)) [3..11 - 1]) \<and>
   findHalosGpu (rev (grid 1 128)) lineGpu exPrefixes exChildOffsets exToInternal exToLeaf
     exRadiiZero () 3 11 exFlags = Some exFlags"
proof -
  note t = findHalos_fast_path [where h = lineGpu and nodePrefixes = exPrefixes
      and childOffsets = exChildOffsets and toInternalOrder = exToInternal and toLeafOrder = exToLeaf
      and box = "()" and firstNode = 3 and lastNode = 11 and flags = exFlags]
  from t [where interactionRadii = exRadii and blockIdx = 0 and blockDim = 128 and threadIdx = 1
      and i = 4] ex_fast_leaf
  have 1: "findHalosKernel lineGpu exPrefixes exChildOffsets exToInternal exToLeaf exRadii () 3 11
     0 128 1 exFlags = Some exFlags"
    by blast
  from t [where interactionRadii = exRadiiZero and sched = "rev (grid 1 128)"] ex_fast_pass
  have 2: "findHalosGpu (rev (grid 1 128)) lineGpu exPrefixes exChildOffsets exToInternal exToLeaf
     exRadiiZero () 3 11 exFlags = Some exFlags"
    by blast
  from 1 2 ex_fast_leaf ex_fast_pass show ?thesis unfolding list_all_iff by blast
qed

theorem findHalosKernel_one_leaf_per_thread_witness:
  "validRange 3 11 \<and> iceilSpec lineGpu (11 - 3) 128 \<and> (3 :: int) \<le> 3 \<and> (3 :: int) < 11 \<and>
   readableRange exPrefixes exToInternal exRadii 3 11 \<and>
   (\<exists>!bt. bt \<in> set (grid (iceil lineGpu (11 - 3) 128) 128) \<and> leafIdxOf (fst bt) 128 (snd bt) 3 = 3) \<and>
   (0, 0) \<in> set (grid (iceil lineGpu (11 - 3) 128) 128) \<and> leafIdxOf 0 128 0 3 = 3 \<and>
   findHalosKernel lineGpu exPrefixes exChildOffsets exToInternal exToLeaf exRadii () 3 11
     0 128 0 exFlags =
     (if containedIn lineGpu (lowestKeyOf lineGpu exPrefixes exToInternal 3)
           (highestKeyOf lineGpu exPrefixes exToInternal 11)
           (haloBoxOf lineGpu exPrefixes exToInternal exRadii () 3)
      then Some exFlags
      else do {
        collisions \<leftarrow> findCollisions lineGpu exPrefixes exChildOffsets
                        (haloBoxOf lineGpu exPrefixes exToInternal exRadii () 3)
                        (lowestKeyOf lineGpu exPrefixes exToInternal 3)
                        (highestKeyOf lineGpu exPrefixes exToInternal 11);
        forEach (markCollisions exToLeaf) collisions exFlags
      })"
proof -
  have s: "iceilSpec lineGpu (11 - 3) 128"
    by (simp add: iceilSpec_def lineGpu_def lineCodec_def)
  have i: "(3 :: int) \<le> 3" "(3 :: int) < 11" by simp_all
  have g: "(0, 0) \<in> set (grid (iceil lineGpu (11 - 3) 128) 128)"
    by (simp add: grid_mem lineGpu_def lineCodec_def)
  have l: "leafIdxOf (fst (0 :: nat, 0 :: nat)) 128 (snd (0 :: nat, 0 :: nat)) 3 = 3"
    by (simp add: leafIdxOf_def u32_def)
  note t = findHalosKernel_one_leaf_per_thread [OF ex_range(1) s i ex_readable(1),
      where childOffsets = exChildOffsets and toLeafOrder = exToLeaf and box = "()"
        and flags = exFlags]
  from t have 1: "\<exists>!bt. bt \<in> set (grid (iceil lineGpu (11 - 3) 128) 128) \<and>
      leafIdxOf (fst bt) 128 (snd bt) 3 = 3"
    by (rule conjunct1)
  from t have "\<forall>bt \<in> set (grid (iceil lineGpu (11 - 3) 128) 128).
      leafIdxOf (fst bt) 128 (snd bt) 3 = 3 \<longrightarrow>
      findHalosKernel lineGpu exPrefixes exChildOffsets exToInternal exToLeaf exRadii () 3 11
        (fst bt) 128 (snd bt) exFlags =
        (if containedIn lineGpu (lowestKeyOf lineGpu exPrefixes exToInternal 3)
              (highestKeyOf lineGpu exPrefixes exToInternal 11)
              (haloBoxOf lineGpu exPrefixes exToInternal exRadii () 3)
         then Some exFlags
         else do {
           collisions \<leftarrow> findCollisions lineGpu exPrefixes exChildOffsets
                           (haloBoxOf lineGpu exPrefixes exToInternal exRadii () 3)
                           (lowestKeyOf lineGpu exPrefixes exToInternal 3)
                           (highestKeyOf lineGpu exPrefixes exToInternal 11);
           forEach (markCollisions exToLeaf) collisions exFlags
         })"
    by (rule conjunct2)
  from bspec [OF this g] l
  have 2: "findHalosKernel lineGpu exPrefixes exChildOffsets exToInternal exToLeaf exRadii () 3 11
     0 128 0 exFlags =
     (if containedIn lineGpu (lowestKeyOf lineGpu exPrefixes exToInternal 3)
           (highestKeyOf lineGpu exPrefixes exToInternal 11)
           (haloBoxOf lineGpu exPrefixes exToInternal exRadii () 3)
      then Some exFlags
      else do {
        collisions \<leftarrow> findCollisions lineGpu exPrefixes exChildOffsets
                        (haloBoxOf lineGpu exPrefixes exToInternal exRadii () 3)
                        (lowestKeyOf lineGpu exPrefixes exToInternal 3)
                        (highestKeyOf lineGpu exPrefixes exToInternal 11);
        forEach (markCollisions exToLeaf) collisions exFlags
      })"
    by simp
  have l': "leafIdxOf 0 128 0 3 = 3" using l by simp
  from ex_range(1) s i ex_readable(1) 1 g l' 2 show ?thesis by (intro conjI)
qed

end
